theory Spec2Isabelle
  imports Complex_Main "HOL-Library.Word" "HOL-Library.Multiset"
begin

unbundle bit_operations_syntax

section \<open>Errors\<close>

text \<open>
  A failed \<open>assert\<close> aborts the process, an integer division by zero traps, and
  \<open>exit(0)\<close> ends it early; each ends the run without a result. Functions that can do one
  of these return \<open>error + 'a\<close>.
\<close>

datatype error = AssertionFailed | DivisionByZero | Exit0

definition ebind :: "error + 'a \<Rightarrow> ('a \<Rightarrow> error + 'b) \<Rightarrow> error + 'b" where
  "ebind m f = (case m of Inl e \<Rightarrow> Inl e | Inr x \<Rightarrow> f x)"

section \<open>The model dispatch of \<open>join_thread\<close> (join/run.c)\<close>

text \<open>The four build/probe procedures declared in join/run.c, as targets of a call.\<close>

datatype colbp = Call_ColBP_I | Call_ColBP_II | Call_ColBP_III | Call_ColBP_IV

text \<open>
  The \<open>if\<close> cascade of \<open>join_thread\<close> over the global \<open>Radix\<close> (run.c, lines 76 to 83):
  \<open>Inr m\<close> when procedure \<open>m\<close> is called, \<open>Inl AssertionFailed\<close> for \<open>assert(false)\<close>.
\<close>

definition join_thread_dispatch :: "nat \<Rightarrow> nat \<Rightarrow> error + colbp" where
  "join_thread_dispatch RadixR RadixS =
     (if RadixR = RadixS then
        (if RadixR = 0 then Inr Call_ColBP_I else Inr Call_ColBP_II)
      else
        (if RadixS = 0 then Inr Call_ColBP_III else Inl AssertionFailed))"

section \<open>Arithmetic helpers (util/util.c)\<close>

text \<open>
  Sizes and counts are \<open>uint32_t\<close> in the source; they are natural numbers here, and the
  wrap-around modulo \<open>2 ^ 32\<close> is written where an operation can reach it.
  \<open>lg_floor\<close> is the loop \<open>while(N >>= 1) result++\<close>.
\<close>

function lg_floor_loop :: "nat \<Rightarrow> nat \<Rightarrow> nat" where
  "lg_floor_loop N result =
     (if N div 2 \<noteq> 0 then lg_floor_loop (N div 2) (result + 1) else result)"
  by pat_completeness auto
termination
  by (relation "measure fst") auto

declare lg_floor_loop.simps [simp del]

definition lg_floor :: "nat \<Rightarrow> error + nat" where
  "lg_floor N = (if 1 \<le> N then Inr (lg_floor_loop N 0) else Inl AssertionFailed)"

text \<open>\<open>1U << result\<close> does not wrap: \<open>result \<le> 31\<close> for a 32-bit \<open>N\<close>.\<close>

definition lg_ceil :: "nat \<Rightarrow> error + nat" where
  "lg_ceil N =
     (if 1 \<le> N then
        ebind (lg_floor N) (\<lambda>result. Inr (result + (if 2 ^ result \<noteq> N then 1 else 0)))
      else Inl AssertionFailed)"

definition div_ceil :: "nat \<Rightarrow> nat \<Rightarrow> error + nat" where
  "div_ceil a b =
     (if b = 0 then Inl DivisionByZero else Inr (a div b + (if 0 < a mod b then 1 else 0)))"

section \<open>Hash table sizes and bucket indices (join/buildprobe_I.c, _II.c, _III.c)\<close>

text \<open>
  Models I and III: \<open>HTable_size = Threads.RelR->size + 1\<close> in \<open>uint32_t\<close>, and a tuple with
  key \<open>k\<close> uses bucket \<open>HTable[k]\<close>.
\<close>

definition ColBP_I_HTable_size :: "nat \<Rightarrow> nat" where
  "ColBP_I_HTable_size RelR_size = (RelR_size + 1) mod 2 ^ 32"

definition ColBP_III_HTable_size :: "nat \<Rightarrow> nat" where
  "ColBP_III_HTable_size RelR_size = (RelR_size + 1) mod 2 ^ 32"

definition ColBP_I_index :: "32 word \<Rightarrow> nat" where
  "ColBP_I_index k = unat k"

text \<open>
  Model II: \<open>avg_partition = (Threads.RelR->size >> Radix.R) + 1\<close> and
  \<open>HTable_size = 1 << lg_ceil(avg_partition)\<close>; a tuple with key \<open>k\<close> uses bucket
  \<open>HTable[k >> radix]\<close>. A shift of a 32-bit value by 32 or more is undefined in C; the
  shift instructions of the compiled code take the count modulo 32, and so do the shifts
  here.
\<close>

definition ColBP_II_HTable_size :: "nat \<Rightarrow> nat \<Rightarrow> error + nat" where
  "ColBP_II_HTable_size RelR_size RadixR =
     (let avg_partition = (RelR_size div 2 ^ (RadixR mod 32) + 1) mod 2 ^ 32
      in ebind (lg_ceil avg_partition) (\<lambda>l. Inr (2 ^ (l mod 32))))"

definition ColBP_II_index :: "nat \<Rightarrow> 32 word \<Rightarrow> nat" where
  "ColBP_II_index radix k = unat (drop_bit (radix mod 32) k)"

text \<open>
  The sizing rule in the words of the specification, for comparison: the smallest power of
  two that is at least \<open>n\<close>, found by descending from \<open>2 ^ n\<close>, and the rounded-up quotient.
\<close>

fun spec_next_pow2_below :: "nat \<Rightarrow> nat \<Rightarrow> nat" where
  "spec_next_pow2_below 0 n = 1"
| "spec_next_pow2_below (Suc l) n =
     (if n \<le> 2 ^ l then spec_next_pow2_below l n else 2 ^ Suc l)"

definition spec_next_pow2 :: "nat \<Rightarrow> nat" where
  "spec_next_pow2 n = spec_next_pow2_below n n"

definition spec_ceil_div :: "nat \<Rightarrow> nat \<Rightarrow> nat" where
  "spec_ceil_div a b = (a + b - 1) div b"

section \<open>Global parameters (types.h, main.c)\<close>

text \<open>
  The fields of the globals \<open>Radix\<close> (\<open>radix_info_t\<close>) and \<open>Threads\<close> (\<open>params_t\<close>) that the
  modelled code reads or writes; \<open>RelR_size\<close> and \<open>RelS_size\<close> are \<open>Threads.RelR->size\<close> and
  \<open>Threads.RelS->size\<close>.
\<close>

record params =
  Radix_R :: nat
  Radix_S :: nat
  Radix_user_defined :: bool
  Threads_N :: nat
  RelR_size :: nat
  RelS_size :: nat

section \<open>Command-line arguments (util/cmd_args.c)\<close>

definition LINEMAX :: nat where
  "LINEMAX = 4096"

text \<open>
  The result of one \<open>sscanf\<close> call with a single conversion: \<open>EOF\<close> when the input ends
  before a conversion, \<open>0\<close> on a matching failure, \<open>1\<close> with the converted value.
\<close>

datatype 'a scanned = ScanEOF | ScanNoMatch | Scanned 'a

definition isspace :: "char \<Rightarrow> bool" where
  "isspace c \<longleftrightarrow> c \<in> {CHR '' '', CHR 0x09, CHR 0x0A, CHR 0x0B, CHR 0x0C, CHR 0x0D}"

definition isdigit :: "char \<Rightarrow> bool" where
  "isdigit c \<longleftrightarrow> c \<in> set ''0123456789''"

definition digit_value :: "char \<Rightarrow> nat" where
  "digit_value c = of_char c - 48"

definition dec_value :: "string \<Rightarrow> nat" where
  "dec_value ds = foldl (\<lambda>a c. 10 * a + digit_value c) 0 ds"

text \<open>
  \<open>sscanf(s, "%u", &ival)\<close> of the GNU C library: white space is skipped, then an optional
  sign and a non-empty run of decimal digits are converted to an \<open>unsigned long\<close> of 64
  bits, a leading minus sign negating the value; a numeral of \<open>2 ^ 64\<close> or more saturates
  to \<open>2 ^ 64 - 1\<close>. The store into the \<open>uint32_t\<close> keeps the low 32 bits.
\<close>

definition sscanf_u :: "string \<Rightarrow> nat scanned" where
  "sscanf_u s =
     (let s1 = dropWhile isspace s in
      if s1 = [] then ScanEOF
      else
        let neg = (hd s1 = CHR ''-'');
            s2 = (if hd s1 = CHR ''-'' \<or> hd s1 = CHR ''+'' then tl s1 else s1);
            ds = takeWhile isdigit s2
        in if ds = [] then ScanNoMatch
           else
             let ul = (if \<not> dec_value ds < 2 ^ 64 then 2 ^ 64 - 1
                       else if neg then (2 ^ 64 - dec_value ds) mod 2 ^ 64
                       else dec_value ds)
             in Scanned (ul mod 2 ^ 32))"

text \<open>
  The state of \<open>extract_cmd_args\<close>: the global parameters it sets, its locals \<open>ival\<close> and
  \<open>dval\<close>, and the options reported as unrecognized. The type \<open>'d\<close> stands for \<open>double\<close>.
\<close>

record 'd cmd_state = params +
  RelS_skew :: 'd
  favor_physical_cores :: bool
  ival :: nat
  dval :: 'd
  unrecognized :: "string list"

text \<open>
  The \<open>while\<close> loop over the characters of \<open>argv[i]\<close>: dashes are skipped, the loop stops
  after the first \<open>=\<close>, every other character is appended to \<open>buffer\<close>. The result is the
  buffer and what \<open>argv[i]\<close> then points to.
\<close>

fun scan_arg :: "string \<Rightarrow> string \<Rightarrow> error + (string \<times> string)" where
  "scan_arg [] buffer = Inr (buffer, [])"
| "scan_arg (c # cs) buffer =
     (if c = CHR ''-'' then scan_arg cs buffer
      else if c = CHR ''='' then Inr (buffer, cs)
      else if \<not> length buffer < LINEMAX - 1 then Inl AssertionFailed
      else scan_arg cs (buffer @ [c]))"

text \<open>
  \<open>sscanf(argv[i], "%u", &ival)\<close> and \<open>sscanf(argv[i], "%lf", &dval)\<close> used as conditions:
  the condition holds when the return value is not zero, that is for \<open>1\<close> and for \<open>EOF\<close>;
  the local is written only when a value was converted. The conversion \<open>%lf\<close> is the
  parameter \<open>sscanf_lf\<close>.
\<close>

definition scan_ival :: "string \<Rightarrow> 'd cmd_state \<Rightarrow> bool \<times> 'd cmd_state" where
  "scan_ival rest st =
     (case sscanf_u rest of
        ScanEOF \<Rightarrow> (True, st)
      | ScanNoMatch \<Rightarrow> (False, st)
      | Scanned v \<Rightarrow> (True, st\<lparr>ival := v\<rparr>))"

definition scan_dval :: "(string \<Rightarrow> 'd scanned) \<Rightarrow> string \<Rightarrow> 'd cmd_state \<Rightarrow> bool \<times> 'd cmd_state" where
  "scan_dval sscanf_lf rest st =
     (case sscanf_lf rest of
        ScanEOF \<Rightarrow> (True, st)
      | ScanNoMatch \<Rightarrow> (False, st)
      | Scanned v \<Rightarrow> (True, st\<lparr>dval := v\<rparr>))"

text \<open>One iteration of the \<open>for\<close> loop: the cascade over the option names.\<close>

definition parse_arg :: "(string \<Rightarrow> 'd scanned) \<Rightarrow> string \<Rightarrow> 'd cmd_state \<Rightarrow> error + 'd cmd_state" where
  "parse_arg sscanf_lf arg st =
     ebind (scan_arg arg []) (\<lambda>(buffer, rest).
       if buffer = ''threads'' \<and> fst (scan_ival rest st) then
         (let st' = snd (scan_ival rest st) in Inr (st'\<lparr>Threads_N := ival st'\<rparr>))
       else if buffer = ''r'' \<and> fst (scan_ival rest st) then
         (let st' = snd (scan_ival rest st) in Inr (st'\<lparr>RelR_size := ival st'\<rparr>))
       else if buffer = ''s'' \<and> fst (scan_ival rest st) then
         (let st' = snd (scan_ival rest st) in Inr (st'\<lparr>RelS_size := ival st'\<rparr>))
       else if buffer = ''skew'' \<and> fst (scan_dval sscanf_lf rest st) then
         (let st' = snd (scan_dval sscanf_lf rest st) in Inr (st'\<lparr>RelS_skew := dval st'\<rparr>))
       else if buffer = ''radix'' \<and> fst (scan_ival rest st) then
         (let st' = snd (scan_ival rest st)
          in Inr (st'\<lparr>Radix_user_defined := True, Radix_S := ival st', Radix_R := ival st'\<rparr>))
       else if buffer = ''radixR'' \<and> fst (scan_ival rest st) then
         (let st' = snd (scan_ival rest st)
          in Inr (st'\<lparr>Radix_user_defined := True, Radix_R := ival st'\<rparr>))
       else if buffer = ''radixS'' \<and> fst (scan_ival rest st) then
         (let st' = snd (scan_ival rest st)
          in Inr (st'\<lparr>Radix_user_defined := True, Radix_S := ival st'\<rparr>))
       else if buffer = ''sched'' then Inl Exit0
       else if buffer = ''favor_hyperthreading'' then Inr (st\<lparr>favor_physical_cores := False\<rparr>)
       else if buffer = ''h'' \<or> buffer = ''help'' then Inl Exit0
       else if buffer \<noteq> [] then Inr (st\<lparr>unrecognized := unrecognized st @ [buffer]\<rparr>)
       else Inr st)"

text \<open>The loop over \<open>argv[1]\<close>, ..., \<open>argv[argc - 1]\<close>; it ends at the first abort or exit.\<close>

fun parse_args :: "(string \<Rightarrow> 'd scanned) \<Rightarrow> string list \<Rightarrow> 'd cmd_state \<Rightarrow> error + 'd cmd_state" where
  "parse_args sscanf_lf [] st = Inr st"
| "parse_args sscanf_lf (arg # args) st =
     ebind (parse_arg sscanf_lf arg st) (parse_args sscanf_lf args)"

definition extract_cmd_args :: "(string \<Rightarrow> 'd scanned) \<Rightarrow> string list \<Rightarrow> 'd cmd_state \<Rightarrow> error + 'd cmd_state" where
  "extract_cmd_args sscanf_lf argv st =
     parse_args sscanf_lf (tl argv) (st\<lparr>Radix_user_defined := False\<rparr>)"

section \<open>Relations and shared state (types.h, common.h, join/partition.c)\<close>

datatype tuple_t = Tuple (key: "32 word") (payload: "32 word")

text \<open>The field \<open>id\<close> of a relation is the character \<open>'R'\<close> or \<open>'S'\<close>.\<close>

datatype rel_id = IdR | IdS

text \<open>
  \<open>block_t\<close> with its fields \<open>start\<close> and \<open>end\<close> (half-open tuple indices), and
  \<open>block_meta_t\<close>: the number of blocks and the rows \<open>Pos[block][sub_block]\<close>.
\<close>

record block_t =
  bstart :: nat
  bend :: nat

record block_meta_t =
  blocks_N :: nat
  Pos :: "block_t list list"

text \<open>
  The process-wide state that the partitioner reads and writes: \<open>Radix\<close> and \<open>Threads\<close>
  (record \<open>params\<close>), \<open>Threads.num_groups\<close>, and the globals \<open>HighSkewObserved\<close>,
  \<open>ChangedRadixS\<close> and \<open>ModelIII_shift\<close> of join/partition.c.
\<close>

record globals = params +
  Threads_num_groups :: nat
  HighSkewObserved :: nat
  ChangedRadixS :: bool
  ModelIII_shift :: nat

definition ChunkSize :: nat where
  "ChunkSize = 2 ^ 15 - 10"


definition HASHx :: "32 word \<Rightarrow> 32 word \<Rightarrow> nat \<Rightarrow> 32 word" where
  "HASHx K MASK SHIFT = (drop_bit SHIFT K) AND MASK"

section \<open>Skew estimation (\<open>ICP_estimate_skew\<close>, join/partition.c)\<close>

text \<open>
  Workers interact only through the shared state and meet at barriers. The model is
  written from the point of view of one worker: a function gets the shared state and what
  the other workers contribute before the next barrier, and returns the shared state as
  the worker sees it afterwards.

  The loop that finds the frequencies of the two most common partitions.
\<close>

definition two_largest :: "nat \<Rightarrow> nat list \<Rightarrow> nat \<times> nat" where
  "two_largest FanoutS Histo =
     fold (\<lambda>j (maxA, maxB).
             if Histo ! j > maxA then (Histo ! j, maxA)
             else if Histo ! j > maxB then (maxA, Histo ! j)
             else (maxA, maxB))
       [0..<FanoutS] (0, 0)"

text \<open>
  The condition under which the worker executes \<open>__sync_fetch_and_add(&HighSkewObserved, 1)\<close>,
  once the test on \<open>|S| / |R|\<close> has passed. The product \<open>block_size * 35\<close> is computed in
  \<open>uint32_t\<close>.
\<close>

definition high_local_skew :: "nat \<Rightarrow> nat list \<Rightarrow> nat \<Rightarrow> bool" where
  "high_local_skew FanoutS Histo block_size =
     (let (maxA, maxB) = two_largest FanoutS Histo;
          skew_threshold = (block_size * 35 mod 2 ^ 32) div 100
      in (FanoutS > 4 \<and> maxA + maxB > skew_threshold) \<or>
         (FanoutS \<le> 4 \<and> maxA > block_size div 2 + 10))"

text \<open>The code of a worker before the first \<open>sbarrier\<close>: its own report.\<close>

definition skew_report :: "globals \<Rightarrow> nat list \<Rightarrow> nat \<Rightarrow> globals" where
  "skew_report G Histo block_size =
     (if high_local_skew (2 ^ Radix_S G) Histo block_size
      then G\<lparr>HighSkewObserved := HighSkewObserved G + 1\<rparr> else G)"

text \<open>The code of worker \<open>tid\<close> between the two calls of \<open>sbarrier\<close>: worker 0 switches.\<close>

definition skew_switch :: "nat \<Rightarrow> globals \<Rightarrow> globals" where
  "skew_switch tid G =
     (if tid = 0 \<and> HighSkewObserved G = Threads_N G
      then G\<lparr>ChangedRadixS := True, Radix_S := 0, Radix_R := Radix_R G + 1\<rparr>
      else G)"

text \<open>
  \<open>ICP_estimate_skew\<close> as worker \<open>tid\<close> runs it. \<open>others\<close> is the number of reports that
  the other workers add to \<open>HighSkewObserved\<close> before the first \<open>sbarrier\<close> is passed.
  Between the two barriers only the code of \<open>skew_switch\<close> runs, so after the second
  barrier a worker other than 0 sees the shared state that worker 0 has left.
\<close>

definition ICP_estimate_skew :: "globals \<Rightarrow> nat \<Rightarrow> nat \<Rightarrow> nat list \<Rightarrow> nat \<Rightarrow> error + (globals \<times> bool)" where
  "ICP_estimate_skew G tid others Histo block_size =
     (if RelR_size G = 0 then Inl DivisionByZero
      else if RelS_size G div RelR_size G < 3 then Inr (G, False)
      else
        let G1 = skew_report G Histo block_size;
            G2 = G1\<lparr>HighSkewObserved := HighSkewObserved G1 + others\<rparr>;
            G3 = skew_switch tid G2;
            G4 = (if tid = 0 then G3 else skew_switch 0 G3)
        in Inr (G4, HighSkewObserved G4 = Threads_N G4))"

section \<open>In-place cache-aware partitioning (\<open>ICP\<close>, join/partition.c)\<close>

text \<open>
  The values that \<open>ICP\<close> computes before its loop and does not change afterwards.
\<close>

record icp_params =
  icp_shift :: nat
  icp_fanout :: nat
  icp_mask :: "32 word"
  icp_N :: nat
  icp_num_blocks :: nat
  icp_avg_block_size :: nat
  icp_first_block_size :: nat
  icp_num_sub_blocks :: nat
  icp_sub_block_partitions :: nat

text \<open>
  \<open>Directory\<close> points either to \<open>TmpBlock\<close> or into the tuple array at an offset.
\<close>

datatype directory = DirTmpBlock | DirT nat

text \<open>The variables that the loop of \<open>ICP\<close> changes.\<close>

record icp_state =
  st_i :: nat
  st_remainder :: nat
  st_block :: nat
  st_T :: "tuple_t list"
  st_TmpBlock :: "tuple_t list"
  st_Directory :: directory
  st_Pos :: "block_t list list"

text \<open>
  The shift of the hash (lines 36 and 41 to 43 of \<open>ICP\<close>): under Model III it is
  \<open>lg_ceil(Threads.RelR->size) - Radix.R - 1\<close>, stored through the \<open>uint8_t\<close> global
  \<open>ModelIII_shift\<close>, hence modulo 256; otherwise it is 0.
\<close>

definition ICP_shift :: "globals \<Rightarrow> rel_id \<Rightarrow> error + (nat \<times> globals)" where
  "ICP_shift G sid =
     (if sid = IdR \<and> Radix_S G = 0 then
        ebind (lg_ceil (RelR_size G)) (\<lambda>l.
          let sh = nat ((int l - int (Radix_R G) - 1) mod 256)
          in Inr (sh, G\<lparr>ModelIII_shift := sh\<rparr>))
      else Inr (0, G))"

text \<open>
  The prologue of \<open>ICP\<close> (lines 36 to 97). \<open>fanout = 1 << radix\<close> is \<open>2 ^ radix\<close> (a radix
  of 32 or more is undefined in C). The result is the shared state, the parameters and
  the initial \<open>remainder\<close>.
\<close>

definition ICP_setup :: "globals \<Rightarrow> rel_id \<Rightarrow> nat \<Rightarrow> nat \<Rightarrow> error + (globals \<times> icp_params \<times> nat)" where
  "ICP_setup G sid N radix =
     (let fanout = 2 ^ radix;
          msk = word_of_nat fanout - 1
      in ebind (ICP_shift G sid)
           (\<lambda>(shift, G1).
              ebind (div_ceil N ChunkSize) (\<lambda>num_blocks.
                if num_blocks = 0 then Inl DivisionByZero
                else
                  let avg_block_size = N div num_blocks;
                      remainder = N mod num_blocks;
                      first_block_size = avg_block_size + (if remainder > 0 then 1 else 0);
                      num_sub_blocks = Threads_num_groups G1
                  in if num_sub_blocks = 0 then Inl DivisionByZero
                     else
                       let sub_block_partitions = fanout div num_sub_blocks
                       in if fanout mod num_sub_blocks \<noteq> 0 then Inl AssertionFailed
                          else
                            Inr (G1,
                                 \<lparr>icp_shift = shift, icp_fanout = fanout, icp_mask = msk,
                                  icp_N = N, icp_num_blocks = num_blocks,
                                  icp_avg_block_size = avg_block_size,
                                  icp_first_block_size = first_block_size,
                                  icp_num_sub_blocks =
                                    (if sid = IdS \<and> Radix_R G1 > Radix_S G1 then 1
                                     else num_sub_blocks),
                                  icp_sub_block_partitions = sub_block_partitions\<rparr>,
                                 remainder))))"

text \<open>
  The histogram of the block \<open>T[from..to)\<close> (lines 110 to 113). The counters are
  \<open>uint16_t\<close>; a block has at most \<open>ChunkSize\<close> tuples, so they do not wrap.
\<close>

definition block_histogram :: "32 word \<Rightarrow> nat \<Rightarrow> nat \<Rightarrow> tuple_t list \<Rightarrow> nat \<Rightarrow> nat \<Rightarrow> nat list" where
  "block_histogram msk shift fanout T from to =
     fold (\<lambda>j Histo. let h = unat (HASHx (key (T ! j)) msk shift)
                     in Histo[h := Histo ! h + 1])
       [from..<to] (replicate fanout 0)"

text \<open>The prefix sum over the histogram, in place (lines 140 to 145).\<close>

definition prefix_sum :: "nat \<Rightarrow> nat list \<Rightarrow> nat list" where
  "prefix_sum fanout Histo =
     fst (fold (\<lambda>j (Histo, accum). let pre_accum = Histo ! j
                                    in (Histo[j := accum], accum + pre_accum))
            [0..<fanout] (Histo, 0))"

text \<open>The row \<open>Pos[block]\<close> of sub-block positions (lines 150 to 158).\<close>

definition block_positions :: "icp_params \<Rightarrow> nat \<Rightarrow> nat \<Rightarrow> nat \<Rightarrow> nat list \<Rightarrow> block_t list" where
  "block_positions P block from len Histo =
     map (\<lambda>m. let p = m * icp_sub_block_partitions P;
                  q = p + icp_sub_block_partitions P;
                  r = (if block = 0 then icp_N P else from) - icp_first_block_size P
              in \<lparr>bstart = r + Histo ! p,
                  bend = r + (if q = icp_fanout P then len else Histo ! q)\<rparr>)
       [0..<icp_num_sub_blocks P]"

text \<open>
  The scatter loop (lines 162 to 166): \<open>Directory[Histo[h]++] = T[i]\<close>. The tuple is read
  from the array as it is at that moment, and written to \<open>TmpBlock\<close> or to the array.
\<close>

definition scatter :: "32 word \<Rightarrow> nat \<Rightarrow> directory \<Rightarrow> nat \<Rightarrow> nat \<Rightarrow>
    tuple_t list \<times> tuple_t list \<times> nat list \<Rightarrow> tuple_t list \<times> tuple_t list \<times> nat list" where
  "scatter msk shift Directory from to =
     fold (\<lambda>i (T, TmpBlock, Histo).
             let t = T ! i;
                 h = unat (HASHx (key t) msk shift);
                 d = Histo ! h
             in (case Directory of
                   DirTmpBlock \<Rightarrow> (T, TmpBlock[d := t], Histo[h := d + 1])
                 | DirT off \<Rightarrow> (T[off + d := t], TmpBlock, Histo[h := d + 1])))
       [from..<to]"

text \<open>
  One iteration of the loop of \<open>ICP\<close> over the blocks (lines 101 to 173). The result
  \<open>None\<close> stands for the branch that frees the buffers and restarts \<open>ICP\<close> (lines 129 to
  135), \<open>Some s'\<close> for the variables at the end of the iteration.
\<close>

definition ICP_block :: "rel_id \<Rightarrow> nat \<Rightarrow> nat \<Rightarrow> icp_params \<Rightarrow> globals \<Rightarrow> icp_state \<Rightarrow>
    error + (globals \<times> icp_state option)" where
  "ICP_block sid tid others P G s =
     (let from = st_i s;
          len = icp_avg_block_size P + (if st_remainder s > 0 then 1 else 0);
          remainder = (if st_remainder s > 0 then st_remainder s - 1 else st_remainder s);
          to = from + len
      in if \<not> to \<le> icp_N P then Inl AssertionFailed
         else if \<not> (st_block s < icp_num_blocks P - 1 \<or> to = icp_N P) then Inl AssertionFailed
         else
           ebind
             (if sid = IdS \<and> st_block s = 0 \<and> \<not> Radix_user_defined G \<and> \<not> ChangedRadixS G
              then ICP_estimate_skew G tid others
                     (block_histogram (icp_mask P) (icp_shift P) (icp_fanout P) (st_T s) from to)
                     (icp_first_block_size P)
              else Inr (G, False))
             (\<lambda>(G', restart).
                if restart then Inr (G', None)
                else
                  (let Histo = prefix_sum (icp_fanout P)
                         (block_histogram (icp_mask P) (icp_shift P) (icp_fanout P) (st_T s) from to)
                   in if Histo ! 0 \<noteq> 0 then Inl AssertionFailed
                      else
                        (case scatter (icp_mask P) (icp_shift P) (st_Directory s) from to
                                (st_T s, st_TmpBlock s, Histo) of
                           (T', TmpBlock', Histo') \<Rightarrow>
                             if Histo' ! (icp_fanout P - 1) \<noteq> to - from then Inl AssertionFailed
                             else
                               Inr (G',
                                 Some \<lparr>st_i = to, st_remainder = remainder,
                                   st_block = st_block s + 1,
                                   st_T = T', st_TmpBlock = TmpBlock',
                                   st_Directory =
                                     (case st_Directory s of
                                        DirTmpBlock \<Rightarrow> DirT 0
                                      | DirT off \<Rightarrow> DirT (off + Histo' ! (icp_fanout P - 1))),
                                   st_Pos = (st_Pos s)[st_block s :=
                                      block_positions P (st_block s) from len Histo]\<rparr>)))))"

text \<open>The loop \<open>for(uint32_t i = 0; i < N;)\<close>.\<close>

function ICP_loop :: "rel_id \<Rightarrow> nat \<Rightarrow> nat \<Rightarrow> icp_params \<Rightarrow> globals \<Rightarrow> icp_state \<Rightarrow>
    error + (globals \<times> icp_state option)" where
  "ICP_loop sid tid others P G s =
     (if st_i s < icp_N P then
        (case ICP_block sid tid others P G s of
           Inl e \<Rightarrow> Inl e
         | Inr (G', None) \<Rightarrow> Inr (G', None)
         | Inr (G', Some s') \<Rightarrow> ICP_loop sid tid others P G' s')
      else Inr (G, Some s))"
  by pat_completeness auto
termination
proof (relation "measure (\<lambda>(sid, tid, others, P, G, s).
        (icp_N P - st_i s) + (icp_num_blocks P - st_block s))")
  fix tid others :: nat and sid :: rel_id and P G s x G' y s'
  assume i: "st_i s < icp_N P"
    and b: "ICP_block sid tid others P G s = Inr x" "(G', y) = x" "y = Some s'"
  define len where "len = icp_avg_block_size P + (if st_remainder s > 0 then 1 else 0)"
  from b have to: "st_i s + len \<le> icp_N P"
    and bl: "st_block s < icp_num_blocks P - 1 \<or> st_i s + len = icp_N P"
    and s': "st_i s' = st_i s + len" "st_block s' = st_block s + 1"
    by (auto simp: ICP_block_def Let_def ebind_def len_def
        split: if_splits sum.splits prod.splits)
  show "((sid, tid, others, P, G', s'), (sid, tid, others, P, G, s))
      \<in> measure (\<lambda>(sid, tid, others, P, G, s).
        (icp_N P - st_i s) + (icp_num_blocks P - st_block s))"
  proof (cases "len = 0")
    case True
    with bl i have "st_block s < icp_num_blocks P - 1" by simp
    with True s' i show ?thesis by simp
  next
    case False
    with to s' i show ?thesis by simp
  qed
qed simp

declare ICP_loop.simps [simp del]

text \<open>
  \<open>ICP\<close> for one sub-relation with tuples \<open>T\<close> and \<open>Sub->size = length T\<close>. The buffers that
  \<open>SafeMalloc\<close> returns are filled before they are read; they start with zeros here. After
  the loop the temporary block is copied in place of the last block (lines 177 to 179);
  when \<open>Directory\<close> still is \<open>TmpBlock\<close> the assertion on the pointer difference fails.
\<close>

function ICP :: "globals \<Rightarrow> nat \<Rightarrow> nat \<Rightarrow> rel_id \<Rightarrow> tuple_t list \<Rightarrow> nat \<Rightarrow> block_meta_t \<Rightarrow>
    error + (globals \<times> tuple_t list \<times> block_meta_t)" where
  "ICP G tid others sid T radix Blocks =
     (if radix = 0 then Inr (G, T, Blocks)
      else
        (case ICP_setup G sid (length T) radix of
           Inl e \<Rightarrow> Inl e
         | Inr (G1, P, remainder) \<Rightarrow>
             (case ICP_loop sid tid others P G1
                     \<lparr>st_i = 0, st_remainder = remainder, st_block = 0, st_T = T,
                      st_TmpBlock = replicate (icp_first_block_size P) (Tuple 0 0),
                      st_Directory = DirTmpBlock,
                      st_Pos = replicate (icp_num_blocks P)
                                 (replicate (icp_num_sub_blocks P) \<lparr>bstart = 0, bend = 0\<rparr>)\<rparr> of
                Inl e \<Rightarrow> Inl e
              | Inr (G2, None) \<Rightarrow>
                  ICP G2 tid others sid T (Radix_S G2) \<lparr>blocks_N = icp_num_blocks P, Pos = []\<rparr>
              | Inr (G2, Some s) \<Rightarrow>
                  if st_remainder s \<noteq> 0 then Inl AssertionFailed
                  else
                    (case st_Directory s of
                       DirTmpBlock \<Rightarrow> Inl AssertionFailed
                     | DirT off \<Rightarrow>
                         if length T - off \<noteq> icp_first_block_size P then Inl AssertionFailed
                         else
                           Inr (G2,
                                take off (st_T s) @
                                take (icp_first_block_size P) (st_TmpBlock s) @
                                drop (off + icp_first_block_size P) (st_T s),
                                \<lparr>blocks_N = icp_num_blocks P, Pos = st_Pos s\<rparr>)))))"
  by pat_completeness auto
termination
proof (relation "measure (\<lambda>(G, tid, others, sid, T, radix, Blocks). radix)")
  fix G :: globals and tid others :: nat and sid :: rel_id and T :: "tuple_t list"
    and radix :: nat and Blocks :: block_meta_t and x G1 y P remainder xa G2 z
  assume r: "radix \<noteq> 0"
    and l: "ICP_loop sid tid others P G1
        \<lparr>st_i = 0, st_remainder = remainder, st_block = 0, st_T = T,
           st_TmpBlock = replicate (icp_first_block_size P) (Tuple 0 0),
           st_Directory = DirTmpBlock,
           st_Pos = replicate (icp_num_blocks P)
                      (replicate (icp_num_sub_blocks P) \<lparr>bstart = 0, bend = 0\<rparr>)\<rparr> = Inr xa"
      "(G2, z) = xa" "z = None"
  have est: "Radix_S G' = 0"
    if "ICP_estimate_skew G0 t0 o0 H bs = Inr (G', True)" for G0 G' H bs t0 o0
    using that
    by (auto simp: ICP_estimate_skew_def Let_def skew_switch_def split: if_splits)
  have blk: "Radix_S G' = 0"
    if "ICP_block i0 t0 o0 P0 G0 s = Inr (G', None)" for G0 G' s i0 t0 o0 P0
    using that
    by (auto simp: ICP_block_def Let_def ebind_def split: if_splits sum.splits prod.splits
        dest: est)
  have loop: "ICP_loop i0 t0 o0 P0 G0 s = Inr (G', None) \<Longrightarrow> Radix_S G' = 0"
    for G0 G' s i0 t0 o0 P0
  proof (induction i0 t0 o0 P0 G0 s rule: ICP_loop.induct)
    case (1 sid tid others P G s)
    from "1.prems" show ?case
      by (subst (asm) ICP_loop.simps)
        (auto split: if_splits sum.splits prod.splits option.splits
          dest: blk intro: "1.IH")
  qed
  from l loop [of sid tid others P G1 _ G2] have "Radix_S G2 = 0" by simp
  with r show "((G2, tid, others, sid, T, Radix_S G2, \<lparr>blocks_N = icp_num_blocks P, Pos = []\<rparr>),
      (G, tid, others, sid, T, radix, Blocks))
      \<in> measure (\<lambda>(G, tid, others, sid, T, radix, Blocks). radix)"
    by simp
qed simp

declare ICP.simps [simp del]

section \<open>The largest entries of a histogram\<close>

text \<open>
  The largest entry of a histogram, given as the multiset of its entries, and the largest
  of the entries that remain when one occurrence of it is removed.
\<close>

definition largest_entry :: "nat multiset \<Rightarrow> nat" where
  "largest_entry M = Max (set_mset M)"

definition second_entry :: "nat multiset \<Rightarrow> nat" where
  "second_entry M = Max (set_mset (M - {#largest_entry M#}))"

text \<open>The body of the loop of \<open>two_largest\<close> as a function of the entry.\<close>

definition upd2 :: "nat \<Rightarrow> nat \<times> nat \<Rightarrow> nat \<times> nat" where
  "upd2 x = (\<lambda>(maxA, maxB).
      if x > maxA then (x, maxA) else if x > maxB then (maxA, x) else (maxA, maxB))"

section \<open>Notions for the partitioner's correctness\<close>

text \<open>
  For a list \<open>xs\<close> of tuples and a hash function \<open>hf\<close>: the number of tuples with hash
  \<open>p\<close> (the histogram entry), the number with a hash below \<open>p\<close> (the prefix sum), and the
  list reordered by hash, the tuples of one hash keeping their order.
\<close>

definition count_eq :: "('a \<Rightarrow> nat) \<Rightarrow> 'a list \<Rightarrow> nat \<Rightarrow> nat" where
  "count_eq hf xs p = length (filter (\<lambda>t. hf t = p) xs)"

definition count_below :: "('a \<Rightarrow> nat) \<Rightarrow> 'a list \<Rightarrow> nat \<Rightarrow> nat" where
  "count_below hf xs p = length (filter (\<lambda>t. hf t < p) xs)"

definition sorted_block :: "('a \<Rightarrow> nat) \<Rightarrow> nat \<Rightarrow> 'a list \<Rightarrow> 'a list" where
  "sorted_block hf n xs = concat (map (\<lambda>p. filter (\<lambda>t. hf t = p) xs) [0..<n])"

text \<open>
  The place where the scatter loop puts the tuple \<open>xs ! j\<close>, and one step of the loop on
  a destination \<open>D\<close> at offset \<open>off\<close> with the cursors \<open>C\<close>.
\<close>

definition scatter_pos :: "('a \<Rightarrow> nat) \<Rightarrow> 'a list \<Rightarrow> nat \<Rightarrow> nat" where
  "scatter_pos hf xs j = count_below hf xs (hf (xs ! j)) + count_eq hf (take j xs) (hf (xs ! j))"

definition scatter_step :: "('a \<Rightarrow> nat) \<Rightarrow> nat \<Rightarrow> 'a \<Rightarrow> 'a list \<times> nat list \<Rightarrow> 'a list \<times> nat list" where
  "scatter_step hf off t = (\<lambda>(D, C). (D[off + C ! hf t := t], C[hf t := C ! hf t + 1]))"

text \<open>The hash of a tuple as \<open>ICP\<close> computes it.\<close>

definition hashf :: "32 word \<Rightarrow> nat \<Rightarrow> tuple_t \<Rightarrow> nat" where
  "hashf msk shift t = unat (HASHx (key t) msk shift)"

definition icp_hash :: "icp_params \<Rightarrow> tuple_t \<Rightarrow> nat" where
  "icp_hash P t = unat (HASHx (key t) (icp_mask P) (icp_shift P))"

text \<open>
  The blocks of a sub-relation: block \<open>b\<close> has \<open>block_len P b\<close> tuples starting at index
  \<open>block_from P b\<close>; after \<open>ICP\<close> its tuples start at \<open>block_offset P b\<close>, which is
  \<open>(block == 0 ? N : from) - first_block_size\<close>.
\<close>

definition block_len :: "icp_params \<Rightarrow> nat \<Rightarrow> nat" where
  "block_len P b =
     icp_avg_block_size P + (if b < icp_N P mod icp_num_blocks P then 1 else 0)"

definition block_from :: "icp_params \<Rightarrow> nat \<Rightarrow> nat" where
  "block_from P b = b * icp_avg_block_size P + min b (icp_N P mod icp_num_blocks P)"

definition block_offset :: "icp_params \<Rightarrow> nat \<Rightarrow> nat" where
  "block_offset P b = (if b = 0 then icp_N P else block_from P b) - icp_first_block_size P"

definition block_tuples :: "icp_params \<Rightarrow> tuple_t list \<Rightarrow> nat \<Rightarrow> tuple_t list" where
  "block_tuples P T0 b = take (block_len P b) (drop (block_from P b) T0)"

text \<open>The properties of the parameters that the prologue of \<open>ICP\<close> establishes.\<close>

definition icp_wf :: "icp_params \<Rightarrow> bool" where
  "icp_wf P \<longleftrightarrow>
     1 \<le> icp_num_blocks P \<and> icp_num_blocks P \<le> icp_N P \<and>
     icp_avg_block_size P = icp_N P div icp_num_blocks P \<and>
     icp_first_block_size P =
       icp_avg_block_size P + (if icp_N P mod icp_num_blocks P > 0 then 1 else 0) \<and>
     1 \<le> icp_sub_block_partitions P \<and>
     icp_num_sub_blocks P * icp_sub_block_partitions P \<le> icp_fanout P \<and>
     (\<forall>t. icp_hash P t < icp_fanout P)"

text \<open>
  The row \<open>Pos[b]\<close> as the claim describes it: sub-block \<open>m\<close> starts where the tuples of
  partition \<open>m * (fanout / G)\<close> start and ends where those of partition
  \<open>(m + 1) * (fanout / G)\<close> start.
\<close>

definition expected_positions :: "icp_params \<Rightarrow> tuple_t list \<Rightarrow> nat \<Rightarrow> block_t list" where
  "expected_positions P T0 b =
     map (\<lambda>m. \<lparr>bstart = block_offset P b +
                   count_below (icp_hash P) (block_tuples P T0 b) (m * icp_sub_block_partitions P),
                bend = block_offset P b +
                   count_below (icp_hash P) (block_tuples P T0 b)
                     ((m + 1) * icp_sub_block_partitions P)\<rparr>)
       [0..<icp_num_sub_blocks P]"

text \<open>The invariant of the loop of \<open>ICP\<close> at the start of the iteration for block \<open>b\<close>.\<close>

definition icp_inv :: "icp_params \<Rightarrow> tuple_t list \<Rightarrow> nat \<Rightarrow> icp_state \<Rightarrow> bool" where
  "icp_inv P T0 b s \<longleftrightarrow>
     st_block s = b \<and> st_i s = block_from P b \<and>
     st_remainder s = icp_N P mod icp_num_blocks P - b \<and>
     length (st_T s) = icp_N P \<and> length (st_TmpBlock s) = icp_first_block_size P \<and>
     length (st_Pos s) = icp_num_blocks P \<and>
     st_Directory s =
       (if b = 0 then DirTmpBlock else DirT (block_from P b - icp_first_block_size P)) \<and>
     (\<forall>x. block_from P b \<le> x \<and> x < icp_N P \<longrightarrow> st_T s ! x = T0 ! x) \<and>
     (0 < b \<longrightarrow> (\<forall>x<icp_first_block_size P.
        st_TmpBlock s ! x = sorted_block (icp_hash P) (icp_fanout P) (block_tuples P T0 0) ! x)) \<and>
     (\<forall>b'. 0 < b' \<and> b' < b \<longrightarrow> (\<forall>x<block_len P b'.
        st_T s ! (block_from P b' - icp_first_block_size P + x) =
          sorted_block (icp_hash P) (icp_fanout P) (block_tuples P T0 b') ! x)) \<and>
     (\<forall>b'<b. st_Pos s ! b' = expected_positions P T0 b')"

text \<open>The inputs on which the prologue of \<open>ICP\<close> passes its checks.\<close>

definition setup_ok :: "globals \<Rightarrow> rel_id \<Rightarrow> nat \<Rightarrow> nat \<Rightarrow> bool" where
  "setup_ok G sid N radix \<longleftrightarrow>
     1 \<le> N \<and> 1 \<le> Threads_num_groups G \<and> 2 ^ radix mod Threads_num_groups G = 0 \<and>
     (sid = IdR \<and> Radix_S G = 0 \<longrightarrow> 1 \<le> RelR_size G)"

text \<open>
  The test of lines 125 to 127 on the first block: the result of \<open>ICP_estimate_skew\<close> when
  it is called, no restart otherwise.
\<close>

definition first_block_skew :: "globals \<Rightarrow> nat \<Rightarrow> nat \<Rightarrow> rel_id \<Rightarrow> icp_params \<Rightarrow> tuple_t list \<Rightarrow>
    error + (globals \<times> bool)" where
  "first_block_skew G tid others sid P T =
     (if sid = IdS \<and> \<not> Radix_user_defined G \<and> \<not> ChangedRadixS G
      then ICP_estimate_skew G tid others
             (block_histogram (icp_mask P) (icp_shift P) (icp_fanout P) T 0 (block_len P 0))
             (icp_first_block_size P)
      else Inr (G, False))"

text \<open>
  The layout of the tuple array \<open>T'\<close> after partitioning \<open>T\<close>: the tuples of block \<open>b\<close>,
  reordered by hash, lie from \<open>block_offset P b\<close> on.
\<close>

definition icp_layout :: "icp_params \<Rightarrow> tuple_t list \<Rightarrow> tuple_t list \<Rightarrow> bool" where
  "icp_layout P T T' \<longleftrightarrow>
     length T' = length T \<and>
     (\<forall>b<icp_num_blocks P. \<forall>x<block_len P b.
        T' ! (block_offset P b + x) =
          sorted_block (icp_hash P) (icp_fanout P) (block_tuples P T b) ! x)"

section \<open>Workers (types.h, util/threads.c)\<close>

text \<open>
  \<open>thread_t\<close>: the worker's ids, its sub-relations as tuple arrays, the block data of
  \<open>ICP\<close> and its join statistics (\<open>uint64_t\<close>).
\<close>

record thread_t =
  T_tid :: nat
  T_group :: nat
  T_SubR :: "tuple_t list"
  T_SubS :: "tuple_t list"
  T_BlocksR :: block_meta_t
  T_BlocksS :: block_meta_t
  T_matches :: "64 word"
  T_checksum :: "64 word"

text \<open>
  \<open>memset(Table + offset, 0, share * sizeof(bucket_t))\<close> on a table; the range lies inside
  the table wherever the code calls it.
\<close>

definition memset_zero :: "32 word list \<Rightarrow> nat \<Rightarrow> nat \<Rightarrow> 32 word list" where
  "memset_zero Table offset share =
     take offset Table @ replicate share 0 @ drop (offset + share) Table"

text \<open>
  \<open>SafeMalloc\<close> of a table of \<open>n\<close> buckets: the content is whatever the memory holds,
  given by \<open>garbage\<close>.
\<close>

definition SafeMalloc_buckets :: "(nat \<Rightarrow> 32 word) \<Rightarrow> nat \<Rightarrow> 32 word list" where
  "SafeMalloc_buckets garbage n = map garbage [0..<n]"

section \<open>Model I (join/buildprobe_I.c)\<close>

text \<open>
  The code of a worker between two barriers is one function on the shared table. The flag
  \<open>test_key\<close> is the macro \<open>TEST_KEY_INPLACEOF_PAYLOAD\<close> (\<open>false\<close> in common.h).

  The share of the table that worker \<open>tid\<close> zeroes (lines 33 to 35).
\<close>

definition ColBP_I_zero :: "nat \<Rightarrow> nat \<Rightarrow> 32 word list \<Rightarrow> 32 word list" where
  "ColBP_I_zero N tid HTable =
     (let share = length HTable div N;
          offset = tid * share
      in memset_zero HTable offset share)"

text \<open>The build loop over the worker's sub-relation of R (lines 40 to 56).\<close>

definition ColBP_I_build :: "bool \<Rightarrow> tuple_t list \<Rightarrow> 32 word list \<times> 64 word \<Rightarrow> 32 word list \<times> 64 word" where
  "ColBP_I_build test_key R =
     fold (\<lambda>t (HTable, checksum).
             let k = key t
             in (HTable[ColBP_I_index k := (if test_key then k else payload t)],
                 checksum + ucast k))
       R"

text \<open>The probe loop over the worker's sub-relation of S (lines 64 to 85).\<close>

definition ColBP_I_probe :: "bool \<Rightarrow> 32 word list \<Rightarrow> tuple_t list \<Rightarrow> 64 word \<times> 64 word \<Rightarrow> 64 word \<times> 64 word" where
  "ColBP_I_probe test_key HTable S =
     fold (\<lambda>t (matches, checksum).
             let k = key t
             in ((if test_key then (if HTable ! ColBP_I_index k = k then matches + 1 else matches)
                  else matches + 1),
                 checksum + ucast (HTable ! ColBP_I_index k)))
       S"

text \<open>
  Model I for all workers: worker 0 allocates the table; after a barrier every worker
  zeroes its share; after a barrier every worker builds; after a barrier every worker
  probes and stores its statistics. Inside a phase the workers are taken in the order of
  the list. Between the phases the locals \<open>matches\<close> and \<open>checksum\<close> of a worker are kept
  in its record.
\<close>

definition ColBP_I_zero_phase :: "nat \<Rightarrow> thread_t list \<Rightarrow> 32 word list \<Rightarrow> 32 word list" where
  "ColBP_I_zero_phase N Ts HTable = fold (\<lambda>T. ColBP_I_zero N (T_tid T)) Ts HTable"

definition ColBP_I_build_phase :: "bool \<Rightarrow> thread_t list \<Rightarrow> 32 word list \<Rightarrow> 32 word list \<times> thread_t list" where
  "ColBP_I_build_phase test_key Ts HTable =
     fold (\<lambda>T (HTable, acc).
             case ColBP_I_build test_key (T_SubR T) (HTable, 0) of
               (HTable', checksum) \<Rightarrow> (HTable', acc @ [T\<lparr>T_checksum := checksum\<rparr>]))
       Ts (HTable, [])"

definition ColBP_I_probe_phase :: "bool \<Rightarrow> 32 word list \<Rightarrow> thread_t list \<Rightarrow> thread_t list" where
  "ColBP_I_probe_phase test_key HTable Ts =
     map (\<lambda>T. case ColBP_I_probe test_key HTable (T_SubS T) (0, T_checksum T) of
                 (matches, checksum) \<Rightarrow> T\<lparr>T_matches := matches, T_checksum := checksum\<rparr>)
       Ts"

definition ColBP_I :: "bool \<Rightarrow> globals \<Rightarrow> (nat \<Rightarrow> 32 word) \<Rightarrow> thread_t list \<Rightarrow> error + thread_t list" where
  "ColBP_I test_key G garbage Ts =
     (if \<not> (Radix_R G = 0 \<and> Radix_S G = 0) then Inl AssertionFailed
      else
        let HTable = SafeMalloc_buckets garbage (ColBP_I_HTable_size (RelR_size G));
            HTable1 = ColBP_I_zero_phase (Threads_N G) Ts HTable
        in case ColBP_I_build_phase test_key Ts HTable1 of
             (HTable2, Ts') \<Rightarrow> Inr (ColBP_I_probe_phase test_key HTable2 Ts'))"

text \<open>The sums of \<open>execute_join\<close> over the workers (run.c, lines 32 to 35).\<close>

definition total_matches :: "thread_t list \<Rightarrow> 64 word" where
  "total_matches Ts = fold (\<lambda>T total. total + T_matches T) Ts 0"

definition global_checksum :: "thread_t list \<Rightarrow> 64 word" where
  "global_checksum Ts = fold (\<lambda>T total. total + T_checksum T) Ts 0"

section \<open>Models II and III (join/buildprobe_II.c, join/buildprobe_III.c)\<close>

text \<open>The macros \<open>FanoutR\<close>, \<open>MaskR\<close> and \<open>MaskS\<close> of common.h; \<open>MaskS\<close> is defined from \<open>FanoutR\<close>.\<close>

definition FanoutR :: "globals \<Rightarrow> nat" where
  "FanoutR G = 2 ^ Radix_R G"


















section \<open>The join (\<open>join_thread\<close> and \<open>execute_join\<close>, join/run.c)\<close>






section \<open>Notions for the join's correctness\<close>

text \<open>
  The invariants of the data model: the keys of R are a permutation of \<open>[1, |R|]\<close>, and
  every key of S lies in \<open>[1, n]\<close>.
\<close>

definition primary_key :: "tuple_t list \<Rightarrow> bool" where
  "primary_key R \<longleftrightarrow> mset (map (\<lambda>t. unat (key t)) R) = mset [1..<length R + 1]"

definition foreign_key :: "tuple_t list \<Rightarrow> nat \<Rightarrow> bool" where
  "foreign_key S n \<longleftrightarrow> (\<forall>t\<in>set S. 1 \<le> unat (key t) \<and> unat (key t) \<le> n)"

text \<open>
  The value that the build phase stores for the key \<open>k\<close>: the key itself in the test
  configuration, otherwise the payload of the tuple of R with that key.
\<close>

definition built_value :: "bool \<Rightarrow> tuple_t list \<Rightarrow> 32 word \<Rightarrow> 32 word" where
  "built_value test_key R k =
     (if test_key then k else payload (the (find (\<lambda>t. key t = k) R)))"

text \<open>The sum of the keys of a relation, and of the values that probing it reads.\<close>

definition key_sum :: "tuple_t list \<Rightarrow> 64 word" where
  "key_sum R = sum_list (map (\<lambda>t. ucast (key t)) R)"

definition probe_sum :: "bool \<Rightarrow> tuple_t list \<Rightarrow> tuple_t list \<Rightarrow> 64 word" where
  "probe_sum test_key R S = sum_list (map (\<lambda>t. ucast (built_value test_key R (key t))) S)"

text \<open>The workers of a run: worker \<open>t\<close> has \<open>tid = t\<close> and \<open>group = t mod num_groups\<close>.\<close>

definition workers_ok :: "globals \<Rightarrow> thread_t list \<Rightarrow> bool" where
  "workers_ok G Ts \<longleftrightarrow>
     0 < length Ts \<and> Threads_N G = length Ts \<and>
     map T_tid Ts = [0..<length Ts] \<and>
     map T_group Ts = map (\<lambda>t. t mod Threads_num_groups G) [0..<length Ts]"

text \<open>
  The statistics that a worker should end with: one match for each tuple of its part of
  S, and the sum of the keys of its part of R plus the values read for its part of S.
\<close>

definition worker_result :: "bool \<Rightarrow> tuple_t list \<Rightarrow> thread_t \<Rightarrow> thread_t" where
  "worker_result test_key R T =
     T\<lparr>T_matches := of_nat (length (T_SubS T)),
       T_checksum := key_sum (T_SubR T) + probe_sum test_key R (T_SubS T)\<rparr>"

text \<open>The relations as the concatenation of the workers' parts.\<close>

definition RelR :: "thread_t list \<Rightarrow> tuple_t list" where
  "RelR Ts = concat (map T_SubR Ts)"

definition RelS :: "thread_t list \<Rightarrow> tuple_t list" where
  "RelS Ts = concat (map T_SubS Ts)"

text \<open>
  The rows \<open>Pos[b][m]\<close> of a partitioned sub-relation while it is scanned: sub-block \<open>m\<close> of
  block \<open>b\<close> starts at the tuples of partition \<open>prog b m\<close> and ends where \<open>ICP\<close> has set its end.
\<close>

definition cursor_pos :: "icp_params \<Rightarrow> tuple_t list \<Rightarrow> (nat \<Rightarrow> nat \<Rightarrow> nat) \<Rightarrow> block_t list list" where
  "cursor_pos P T0 prog =
     map (\<lambda>b. map (\<lambda>m. \<lparr>bstart = block_offset P b +
                            count_below (icp_hash P) (block_tuples P T0 b) (prog b m),
                         bend = block_offset P b +
                            count_below (icp_hash P) (block_tuples P T0 b)
                              ((m + 1) * icp_sub_block_partitions P)\<rparr>)
                [0..<icp_num_sub_blocks P])
       [0..<icp_num_blocks P]"

text \<open>The scatter of one tuple to a table, and the table after the scatter of a list.\<close>

definition table_write :: "(32 word \<Rightarrow> nat) \<Rightarrow> bool \<Rightarrow> tuple_t \<Rightarrow> 32 word list \<Rightarrow> 32 word list" where
  "table_write index test_key t HTable =
     HTable[index (key t) := (if test_key then key t else payload t)]"


definition partitions_done :: "nat \<Rightarrow> nat \<Rightarrow> nat \<Rightarrow> nat set \<Rightarrow> nat set" where
  "partitions_done n sbp i D = {p. p < n \<and> (p mod sbp < i \<or> (p mod sbp = i \<and> p div sbp \<in> D))}"

definition sub_block_progress :: "nat \<Rightarrow> nat \<Rightarrow> nat set \<Rightarrow> nat \<Rightarrow> nat" where
  "sub_block_progress sbp i D m = m * sbp + i + (if m \<in> D then 1 else 0)"

text \<open>
  The record of a worker that has scanned the partitions in \<open>A\<close> of its part \<open>R0\<close> of R for
  building, and of its part \<open>S0\<close> of S for probing.
\<close>

definition scanned_R :: "icp_params \<Rightarrow> tuple_t list \<Rightarrow> nat set \<Rightarrow> (nat \<Rightarrow> nat) \<Rightarrow> thread_t \<Rightarrow> thread_t" where
  "scanned_R P R0 A prog T =
     T\<lparr>T_BlocksR := \<lparr>blocks_N = icp_num_blocks P, Pos = cursor_pos P R0 (\<lambda>b. prog)\<rparr>,
       T_checksum := T_checksum T + key_sum (filter (\<lambda>t. icp_hash P t \<in> A) R0)\<rparr>"

definition scanned_S :: "bool \<Rightarrow> tuple_t list \<Rightarrow> icp_params \<Rightarrow> tuple_t list \<Rightarrow> nat set \<Rightarrow> (nat \<Rightarrow> nat) \<Rightarrow>
    thread_t \<Rightarrow> thread_t" where
  "scanned_S test_key R P S0 A prog T =
     T\<lparr>T_BlocksS := \<lparr>blocks_N = icp_num_blocks P, Pos = cursor_pos P S0 (\<lambda>b. prog)\<rparr>,
       T_matches := T_matches T + of_nat (length (filter (\<lambda>t. icp_hash P t \<in> A) S0)),
       T_checksum := T_checksum T + probe_sum test_key R (filter (\<lambda>t. icp_hash P t \<in> A) S0)\<rparr>"


text \<open>A table that results from \<open>H0\<close> by the scatter of the tuples in \<open>X\<close>, in some order.\<close>

definition written :: "(32 word \<Rightarrow> nat) \<Rightarrow> bool \<Rightarrow> 32 word list \<Rightarrow> tuple_t set \<Rightarrow> 32 word list \<Rightarrow> bool" where
  "written index test_key H0 X H \<longleftrightarrow>
     (\<exists>W. set W = X \<and> H = fold (table_write index test_key) W H0)"


definition build_workers :: "globals \<Rightarrow> (nat \<Rightarrow> icp_params) \<Rightarrow> (nat \<Rightarrow> tuple_t list) \<Rightarrow> thread_t list \<Rightarrow>
    nat \<Rightarrow> (nat \<Rightarrow> nat set) \<Rightarrow> thread_t list" where
  "build_workers G PR R0 Tz i D =
     map (\<lambda>w. scanned_R (PR w) (R0 w)
                (partitions_done (FanoutR G) (FanoutR G div Threads_num_groups G) i (D w))
                (sub_block_progress (FanoutR G div Threads_num_groups G) i (D w)) (Tz ! w))
       [0..<length Tz]"




definition probe_workers :: "globals \<Rightarrow> bool \<Rightarrow> tuple_t list \<Rightarrow> (nat \<Rightarrow> icp_params) \<Rightarrow>
    (nat \<Rightarrow> tuple_t list) \<Rightarrow> thread_t list \<Rightarrow> nat \<Rightarrow> (nat \<Rightarrow> nat set) \<Rightarrow> thread_t list" where
  "probe_workers G test_key R PS S0 Tz i D =
     map (\<lambda>w. scanned_S test_key R (PS w) (S0 w)
                (partitions_done (FanoutR G) (FanoutR G div Threads_num_groups G) i (D w))
                (sub_block_progress (FanoutR G div Threads_num_groups G) i (D w)) (Tz ! w))
       [0..<length Tz]"










section \<open>Theorems\<close>

section \<open>Logarithms and the sizing rule\<close>

lemma lg_floor_loop_acc: "lg_floor_loop N r = r + lg_floor_loop N 0"
proof (induction N arbitrary: r rule: less_induct)
  case (less N)
  show ?case
  proof (cases "N div 2 \<noteq> 0")
    case True
    then have lt: "N div 2 < N" by simp
    have "lg_floor_loop N r = lg_floor_loop (N div 2) (r + 1)"
      using True by (subst lg_floor_loop.simps) simp
    also have "\<dots> = (r + 1) + lg_floor_loop (N div 2) 0"
      by (rule less.IH [OF lt])
    finally have a: "lg_floor_loop N r = (r + 1) + lg_floor_loop (N div 2) 0" .
    have "lg_floor_loop N 0 = lg_floor_loop (N div 2) (0 + 1)"
      using True by (subst lg_floor_loop.simps) simp
    also have "\<dots> = (0 + 1) + lg_floor_loop (N div 2) 0"
      by (rule less.IH [OF lt])
    finally show ?thesis using a by simp
  next
    case False
    then show ?thesis by (simp add: lg_floor_loop.simps [of N])
  qed
qed

lemma lg_floor_loop_bounds:
  "1 \<le> N \<Longrightarrow> 2 ^ lg_floor_loop N 0 \<le> N \<and> N < 2 * 2 ^ lg_floor_loop N 0"
proof (induction N rule: less_induct)
  case (less N)
  show ?case
  proof (cases "N div 2 \<noteq> 0")
    case True
    then have lt: "N div 2 < N" and ge: "1 \<le> N div 2" by simp_all
    have "lg_floor_loop N 0 = lg_floor_loop (N div 2) (0 + 1)"
      using True by (subst lg_floor_loop.simps) simp
    then have e: "lg_floor_loop N 0 = Suc (lg_floor_loop (N div 2) 0)"
      using lg_floor_loop_acc [of "N div 2" 1] by simp
    define x :: nat where "x = 2 ^ lg_floor_loop (N div 2) 0"
    from less.IH [OF lt ge] have "x \<le> N div 2" "N div 2 < 2 * x"
      by (simp_all add: x_def)
    then have "2 * x \<le> N \<and> N < 2 * (2 * x)" by arith
    then show ?thesis unfolding e x_def by simp
  next
    case False
    with less.prems have "N = 1" by presburger
    moreover have "lg_floor_loop N 0 = 0"
      using False by (subst lg_floor_loop.simps) simp
    ultimately show ?thesis by simp
  qed
qed

lemma lg_ceil_spec:
  assumes "1 \<le> N"
  shows "\<exists>l. lg_ceil N = Inr l \<and> N \<le> 2 ^ l \<and> (0 < l \<longrightarrow> 2 ^ (l - 1) < N)"
proof -
  let ?f = "lg_floor_loop N 0"
  from lg_floor_loop_bounds [OF assms] have b: "2 ^ ?f \<le> N" "N < 2 * 2 ^ ?f" by simp_all
  show ?thesis
  proof (cases "2 ^ ?f = N")
    case True
    have "lg_ceil N = Inr ?f" using assms True by (simp add: lg_ceil_def lg_floor_def ebind_def)
    moreover have "0 < ?f \<longrightarrow> (2::nat) ^ (?f - 1) < 2 ^ ?f" by simp
    ultimately show ?thesis using True by auto
  next
    case False
    have "lg_ceil N = Inr (?f + 1)" using assms False by (simp add: lg_ceil_def lg_floor_def ebind_def)
    then show ?thesis using b False by auto
  qed
qed

lemma spec_next_pow2_below_eq:
  "n \<le> 2 ^ l \<Longrightarrow> (0 < l \<longrightarrow> 2 ^ (l - 1) < n) \<Longrightarrow> l \<le> m \<Longrightarrow> spec_next_pow2_below m n = 2 ^ l"
proof (induction m)
  case 0
  then show ?case by simp
next
  case (Suc m)
  show ?case
  proof (cases "l = Suc m")
    case True
    with Suc.prems show ?thesis by simp
  next
    case False
    with Suc.prems have lm: "l \<le> m" by simp
    then have "(2::nat) ^ l \<le> 2 ^ m" by (simp add: power_increasing)
    with Suc.prems(1) have "n \<le> 2 ^ m" by (rule le_trans)
    then show ?thesis using Suc.IH [OF Suc.prems(1,2) lm] by simp
  qed
qed

lemma spec_next_pow2_eq:
  assumes "n \<le> 2 ^ l" "0 < l \<longrightarrow> 2 ^ (l - 1) < n"
  shows "spec_next_pow2 n = 2 ^ l"
proof -
  have "l \<le> n"
  proof (cases "0 < l")
    case True
    have "l - 1 < 2 ^ (l - 1)" by (rule less_exp)
    moreover from True assms(2) have "2 ^ (l - 1) < n" by simp
    ultimately show ?thesis by linarith
  qed simp
  then show ?thesis unfolding spec_next_pow2_def by (rule spec_next_pow2_below_eq [OF assms])
qed

lemma ColBP_II_HTable_size_eq:
  assumes "0 < r" "R < 2 ^ 32" "r < 32"
  shows "ColBP_II_HTable_size R r = Inr (spec_next_pow2 (R div 2 ^ r + 1))"
proof -
  let ?a = "R div 2 ^ r + 1"
  from assms(3) have rm: "r mod 32 = r" by simp
  have "(2::nat) ^ 1 \<le> 2 ^ r"
    using assms(1) by (intro power_increasing) simp_all
  then have "R div 2 ^ r \<le> R div 2 ^ 1"
    by (intro div_le_mono2) simp_all
  also have "\<dots> < 2 ^ 31" using assms(2) by simp
  finally have a31: "?a \<le> 2 ^ 31" by simp
  then have amod: "?a mod 2 ^ 32 = ?a" by simp
  obtain l where l: "lg_ceil ?a = Inr l" "?a \<le> 2 ^ l" "0 < l \<longrightarrow> 2 ^ (l - 1) < ?a"
    using lg_ceil_spec [of ?a] by auto
  have "l \<le> 31"
  proof (rule ccontr)
    assume "\<not> l \<le> 31"
    then have "31 \<le> l - 1" "0 < l" by simp_all
    then have "(2::nat) ^ 31 \<le> 2 ^ (l - 1)" by (intro power_increasing) simp_all
    with l(3) \<open>0 < l\<close> a31 show False by simp
  qed
  then have lm: "l mod 32 = l" by simp
  have "spec_next_pow2 ?a = 2 ^ l" by (rule spec_next_pow2_eq [OF l(2,3)])
  then show ?thesis
    unfolding ColBP_II_HTable_size_def Let_def rm amod l(1) by (simp add: ebind_def lm)
qed

lemma spec_next_pow2_ge: "n \<le> spec_next_pow2 n"
proof -
  have "n \<le> 2 ^ l \<Longrightarrow> n \<le> spec_next_pow2_below l n" for l
    by (induction l) auto
  moreover have "n \<le> 2 ^ n" by (simp add: less_imp_le_nat)
  ultimately show ?thesis by (simp add: spec_next_pow2_def)
qed

section \<open>The two most frequent partitions\<close>

lemma largest_entry_in: "M \<noteq> {#} \<Longrightarrow> largest_entry M \<in># M"
  unfolding largest_entry_def using Max_in [of "set_mset M"] by simp

lemma second_le_largest:
  assumes "M - {#largest_entry M#} \<noteq> {#}"
  shows "second_entry M \<le> largest_entry M"
proof -
  have "second_entry M \<in># M - {#largest_entry M#}"
    unfolding second_entry_def using Max_in [of "set_mset (M - {#largest_entry M#})"] assms by simp
  then have "second_entry M \<in># M" by (rule in_diffD)
  then show ?thesis unfolding largest_entry_def by simp
qed

lemma top_add_small:
  assumes ne: "M - {#largest_entry M#} \<noteq> {#}" and c: "c \<le> second_entry M"
  shows "largest_entry (add_mset c M) = largest_entry M" and "second_entry (add_mset c M) = second_entry M"
proof -
  from ne have M: "M \<noteq> {#}" by auto
  from c second_le_largest [OF ne] have c1: "c \<le> largest_entry M" by simp
  show 1: "largest_entry (add_mset c M) = largest_entry M"
    using c1 M unfolding largest_entry_def by (simp add: max_def)
  have "add_mset c M - {#largest_entry M#} = add_mset c (M - {#largest_entry M#})"
    using largest_entry_in [OF M] by simp
  then show "second_entry (add_mset c M) = second_entry M"
    unfolding second_entry_def 1 using c ne by (simp add: second_entry_def max_def)
qed

lemma top_pair: "b \<le> a \<Longrightarrow> largest_entry {#a, b#} = a \<and> second_entry {#a, b#} = b"
  by (simp add: largest_entry_def second_entry_def max_def)

lemma second_entry_ge_second:
  assumes "b \<le> a"
  shows "b \<le> second_entry (M + {#a, b#})" and "M + {#a, b#} - {#largest_entry (M + {#a, b#})#} \<noteq> {#}"
proof -
  let ?N = "M + {#a, b#}"
  have ne: "?N \<noteq> {#}" by simp
  have sz: "size (?N - {#largest_entry ?N#}) = size ?N - 1"
    using largest_entry_in [OF ne] by (simp add: size_Diff_singleton)
  then show nn: "?N - {#largest_entry ?N#} \<noteq> {#}" by auto
  have "a \<le> largest_entry ?N" unfolding largest_entry_def by simp
  have "b \<in># ?N - {#largest_entry ?N#} \<or> a \<in># ?N - {#largest_entry ?N#}"
  proof (cases "largest_entry ?N = a")
    case True
    then show ?thesis by simp
  next
    case False
    then have "a \<in># ?N - {#largest_entry ?N#}" by (simp add: in_diff_count)
    then show ?thesis by simp
  qed
  then have "b \<le> Max (set_mset (?N - {#largest_entry ?N#}))"
    using assms by (auto intro: Max_ge_iff [THEN iffD2])
  then show "b \<le> second_entry ?N" by (simp add: second_entry_def)
qed

lemma fold_upd2:
  "b \<le> a \<Longrightarrow> fold upd2 xs (a, b) = (largest_entry (mset xs + {#a, b#}), second_entry (mset xs + {#a, b#}))"
proof (induction xs arbitrary: a b)
  case Nil
  then show ?case using top_pair [of b a] by simp
next
  case (Cons x xs)
  obtain a' b' where u: "upd2 x (a, b) = (a', b')" by (cases "upd2 x (a, b)")
  from u Cons.prems obtain c where ab: "b' \<le> a'" and c: "c \<le> b'"
    and ms: "{#x, a, b#} = {#c, a', b'#}"
    by (auto simp: upd2_def split: if_splits)
  let ?M = "mset xs + {#a', b'#}"
  have eq: "mset (x # xs) + {#a, b#} = add_mset c ?M"
    using ms by (simp add: add_mset_commute)
  from second_entry_ge_second [OF ab, of "mset xs"] c
  have "c \<le> second_entry ?M" and ne: "?M - {#largest_entry ?M#} \<noteq> {#}" by simp_all
  from top_add_small [OF ne this(1)] Cons.IH [OF ab] u
  show ?case unfolding eq by simp
qed

lemma two_largest_eq:
  assumes "length Histo = n" "2 \<le> n"
  shows "two_largest n Histo = (largest_entry (mset Histo), second_entry (mset Histo))"
proof -
  have f: "(\<lambda>j (maxA, maxB).
             if Histo ! j > maxA then (Histo ! j, maxA)
             else if Histo ! j > maxB then (maxA, Histo ! j)
             else (maxA, maxB)) = upd2 \<circ> (!) Histo"
    by (simp add: upd2_def fun_eq_iff)
  have "two_largest n Histo = fold upd2 (map ((!) Histo) [0..<length Histo]) (0, 0)"
    unfolding two_largest_def f assms(1) [symmetric] by (simp add: fold_map)
  also have "\<dots> = fold upd2 Histo (0, 0)" by (simp add: map_nth)
  also have "\<dots> = (largest_entry (mset Histo + {#0, 0#}), second_entry (mset Histo + {#0, 0#}))"
    by (rule fold_upd2) simp
  finally have a: "two_largest n Histo = (largest_entry (mset Histo + {#0, 0#}), second_entry (mset Histo + {#0, 0#}))" .
  let ?M = "mset Histo"
  from assms have sz: "2 \<le> size ?M" by simp
  then have ne: "?M \<noteq> {#}" by auto
  have "size (?M - {#largest_entry ?M#}) = size ?M - 1"
    using largest_entry_in [OF ne] by (simp add: size_Diff_singleton)
  with sz have ne1: "?M - {#largest_entry ?M#} \<noteq> {#}" by auto
  have s1: "largest_entry (add_mset 0 ?M) = largest_entry ?M" "second_entry (add_mset 0 ?M) = second_entry ?M"
    using top_add_small [OF ne1, of 0] by simp_all
  have ne2: "add_mset 0 ?M - {#largest_entry (add_mset 0 ?M)#} \<noteq> {#}"
    unfolding s1 using largest_entry_in [OF ne] ne1 by simp
  have s2: "largest_entry (add_mset 0 (add_mset 0 ?M)) = largest_entry ?M" "second_entry (add_mset 0 (add_mset 0 ?M)) = second_entry ?M"
    using top_add_small [OF ne2, of 0] s1 by simp_all
  show ?thesis unfolding a using s2 by (simp add: add_mset_commute)
qed


lemma ratio_ge_3: "0 < R \<Longrightarrow> \<not> (S div R < 3) \<longleftrightarrow> 3 \<le> real S / real R"
proof -
  assume R: "0 < R"
  have "\<not> (S div R < 3) \<longleftrightarrow> 3 * R \<le> S"
    using R by (simp add: not_less less_eq_div_iff_mult_less_eq mult.commute)
  also have "\<dots> \<longleftrightarrow> real (3 * R) \<le> real S" by (simp only: of_nat_le_iff)
  also have "\<dots> \<longleftrightarrow> 3 \<le> real S / real R" using R by (simp add: field_simps)
  finally show ?thesis .
qed

lemma threshold_35: "(b * 35 div 100 < a) \<longleftrightarrow> 0.35 * real b < real a" for a b :: nat
proof -
  have "(b * 35 div 100 < a) \<longleftrightarrow> b * 35 < a * 100"
    by (rule div_less_iff_less_mult) simp
  also have "\<dots> \<longleftrightarrow> 35 * b < 100 * a" by (simp add: mult.commute)
  also have "\<dots> \<longleftrightarrow> real (35 * b) < real (100 * a)" by (simp only: of_nat_less_iff)
  also have "\<dots> \<longleftrightarrow> 0.35 * real b < real a" by (simp add: mult.commute)
  finally show ?thesis .
qed

lemma threshold_half: "(b div 2 + 10 < a) \<longleftrightarrow> real b / 2 + 10 < real a" for a b :: nat
proof -
  have "(b div 2 + 10 < a) \<longleftrightarrow> b + 20 < 2 * a" by arith
  also have "\<dots> \<longleftrightarrow> real (b + 20) < real (2 * a)" by (simp only: of_nat_less_iff)
  also have "\<dots> \<longleftrightarrow> real b / 2 + 10 < real a" by (simp add: field_simps)
  finally show ?thesis .
qed

lemma no_wrap_35: "b \<le> ChunkSize \<Longrightarrow> b * 35 mod 2 ^ 32 = b * 35"
  by (simp add: ChunkSize_def)

section \<open>Counting and reordering by hash\<close>

lemma count_below_Suc: "count_below hf xs (Suc p) = count_below hf xs p + count_eq hf xs p"
  unfolding count_below_def count_eq_def
  by (induction xs) (auto simp: less_Suc_eq)

lemma count_below_0 [simp]: "count_below hf xs 0 = 0"
  by (simp add: count_below_def)

lemma count_below_mono: "p \<le> q \<Longrightarrow> count_below hf xs p \<le> count_below hf xs q"
  unfolding count_below_def by (induction xs) auto

lemma count_below_all: "\<forall>t\<in>set xs. hf t < n \<Longrightarrow> count_below hf xs n = length xs"
  unfolding count_below_def by (induction xs) auto

lemma count_eq_append: "count_eq hf (xs @ ys) p = count_eq hf xs p + count_eq hf ys p"
  by (simp add: count_eq_def)

lemma count_eq_take_le: "count_eq hf (take j xs) p \<le> count_eq hf xs p"
proof -
  have "count_eq hf xs p = count_eq hf (take j xs @ drop j xs) p" by simp
  also have "\<dots> = count_eq hf (take j xs) p + count_eq hf (drop j xs) p"
    by (rule count_eq_append)
  finally show ?thesis by simp
qed

lemma count_eq_take_Suc:
  "j < length xs \<Longrightarrow> count_eq hf (take (Suc j) xs) p =
     count_eq hf (take j xs) p + (if hf (xs ! j) = p then 1 else 0)"
  by (simp add: take_Suc_conv_app_nth count_eq_def)

lemma count_eq_take_less:
  assumes "j < length xs" "hf (xs ! j) = p"
  shows "count_eq hf (take j xs) p < count_eq hf xs p"
proof -
  have "count_eq hf (take (Suc j) xs) p \<le> count_eq hf xs p" by (rule count_eq_take_le)
  with count_eq_take_Suc [OF assms(1), of hf p] assms(2) show ?thesis by simp
qed

lemma scatter_pos_less:
  assumes "j < length xs"
  shows "scatter_pos hf xs j < count_below hf xs (Suc (hf (xs ! j)))"
  unfolding scatter_pos_def count_below_Suc
  using count_eq_take_less [OF assms refl] by simp

lemma scatter_pos_bound:
  assumes "j < length xs"
  shows "scatter_pos hf xs j < length xs"
proof -
  have "count_below hf xs (Suc (hf (xs ! j))) \<le> length xs"
    by (simp add: count_below_def)
  with scatter_pos_less [OF assms, of hf] show ?thesis by simp
qed

lemma scatter_pos_inj:
  assumes "j < k" "k < length xs"
  shows "scatter_pos hf xs j \<noteq> scatter_pos hf xs k"
proof (cases "hf (xs ! j) = hf (xs ! k)")
  case True
  from assms have j: "j < length xs" by simp
  have "take (Suc j) (take k xs) = take (Suc j) xs"
    using assms by (simp add: min_def)
  with count_eq_take_le [of hf "Suc j" "take k xs" "hf (xs ! k)"]
  have "count_eq hf (take (Suc j) xs) (hf (xs ! k)) \<le> count_eq hf (take k xs) (hf (xs ! k))"
    by simp
  with count_eq_take_Suc [OF j, of hf "hf (xs ! k)"] True
  have "count_eq hf (take j xs) (hf (xs ! k)) < count_eq hf (take k xs) (hf (xs ! k))" by simp
  then show ?thesis by (simp add: scatter_pos_def True)
next
  case False
  from assms have j: "j < length xs" by simp
  show ?thesis
  proof (cases "hf (xs ! j) < hf (xs ! k)")
    case True
    then have "count_below hf xs (Suc (hf (xs ! j))) \<le> count_below hf xs (hf (xs ! k))"
      by (intro count_below_mono) simp
    with scatter_pos_less [OF j, of hf] have "scatter_pos hf xs j < count_below hf xs (hf (xs ! k))"
      by simp
    then show ?thesis by (simp add: scatter_pos_def [of hf xs k])
  next
    case F: False
    with False have "hf (xs ! k) < hf (xs ! j)" by simp
    then have "count_below hf xs (Suc (hf (xs ! k))) \<le> count_below hf xs (hf (xs ! j))"
      by (intro count_below_mono) simp
    with scatter_pos_less [OF assms(2), of hf] have "scatter_pos hf xs k < count_below hf xs (hf (xs ! j))"
      by simp
    then show ?thesis by (simp add: scatter_pos_def [of hf xs j])
  qed
qed

lemma scatter_pos_inj_on: "inj_on (scatter_pos hf xs) {..<length xs}"
proof (rule inj_onI)
  fix j k assume "j \<in> {..<length xs}" "k \<in> {..<length xs}"
    and e: "scatter_pos hf xs j = scatter_pos hf xs k"
  then have "j < length xs" "k < length xs" by simp_all
  with e scatter_pos_inj [of j k xs hf] scatter_pos_inj [of k j xs hf]
  show "j = k" by (cases j k rule: linorder_cases) auto
qed

lemma scatter_pos_surj:
  assumes "x < length xs"
  shows "\<exists>j<length xs. scatter_pos hf xs j = x"
proof -
  have "scatter_pos hf xs ` {..<length xs} \<subseteq> {..<length xs}"
    using scatter_pos_bound by auto
  moreover have "card (scatter_pos hf xs ` {..<length xs}) = card {..<length xs}"
    using scatter_pos_inj_on by (rule card_image)
  ultimately have "scatter_pos hf xs ` {..<length xs} = {..<length xs}"
    by (intro card_subset_eq) simp_all
  with assms have "x \<in> scatter_pos hf xs ` {..<length xs}" by simp
  then show ?thesis by auto
qed

lemma length_sorted_block: "length (sorted_block hf n xs) = count_below hf xs n"
  by (induction n) (simp_all add: sorted_block_def count_below_Suc count_eq_def)

lemma sorted_block_Suc:
  "sorted_block hf (Suc n) xs = sorted_block hf n xs @ filter (\<lambda>t. hf t = n) xs"
  by (simp add: sorted_block_def)

lemma sorted_block_nth:
  "p < n \<Longrightarrow> c < count_eq hf xs p \<Longrightarrow>
     sorted_block hf n xs ! (count_below hf xs p + c) = filter (\<lambda>t. hf t = p) xs ! c"
proof (induction n)
  case 0
  then show ?case by simp
next
  case (Suc n)
  show ?case
  proof (cases "p = n")
    case True
    then show ?thesis
      by (simp add: sorted_block_Suc nth_append length_sorted_block)
  next
    case False
    with Suc.prems have pn: "p < n" by simp
    then have "count_below hf xs (Suc p) \<le> count_below hf xs n"
      by (intro count_below_mono) simp
    with Suc.prems(2) have "count_below hf xs p + c < length (sorted_block hf n xs)"
      by (simp add: length_sorted_block count_below_Suc)
    then show ?thesis
      using Suc.IH [OF pn Suc.prems(2)] by (simp add: sorted_block_Suc nth_append)
  qed
qed

lemma filter_nth_count:
  assumes "j < length xs" "P (xs ! j)"
  shows "filter P xs ! length (filter P (take j xs)) = xs ! j"
proof -
  have "filter P xs = filter P (take j xs @ xs ! j # drop (Suc j) xs)"
    using id_take_nth_drop [OF assms(1)] by simp
  also have "\<dots> = filter P (take j xs) @ xs ! j # filter P (drop (Suc j) xs)"
    using assms(2) by simp
  finally show ?thesis by (simp add: nth_append)
qed

lemma sorted_block_scatter_pos:
  assumes "j < length xs" "hf (xs ! j) < n"
  shows "sorted_block hf n xs ! scatter_pos hf xs j = xs ! j"
proof -
  have "sorted_block hf n xs ! scatter_pos hf xs j =
      filter (\<lambda>t. hf t = hf (xs ! j)) xs ! count_eq hf (take j xs) (hf (xs ! j))"
    unfolding scatter_pos_def
    by (rule sorted_block_nth [OF assms(2) count_eq_take_less [of j xs hf, OF assms(1) refl]])
  also have "\<dots> = xs ! j"
    unfolding count_eq_def by (rule filter_nth_count [OF assms(1)]) simp
  finally show ?thesis .
qed

lemma filter_mset_below_Suc:
  "filter_mset (\<lambda>t. hf t < Suc n) M =
     filter_mset (\<lambda>t. hf t < n) M + filter_mset (\<lambda>t. hf t = n) M"
  by (induction M) (auto simp: less_Suc_eq)

lemma mset_sorted_block_below:
  "mset (sorted_block hf n xs) = filter_mset (\<lambda>t. hf t < n) (mset xs)"
proof (induction n)
  case 0
  show ?case by (simp add: sorted_block_def)
next
  case (Suc n)
  then show ?case by (simp add: sorted_block_Suc filter_mset_below_Suc)
qed

lemma mset_sorted_block:
  assumes "\<forall>t\<in>set xs. hf t < n"
  shows "mset (sorted_block hf n xs) = mset xs"
proof -
  from assms have "filter_mset (\<lambda>t. hf t < n) (mset xs) = mset xs"
    by (simp add: filter_mset_eq_conv)
  then show ?thesis by (simp add: mset_sorted_block_below)
qed

section \<open>The scatter loop on lists\<close>

lemma scatter_fold_invariant:
  assumes C0: "length C0 = n" "\<forall>p<n. C0 ! p = count_below hf xs p"
    and hf: "\<forall>t\<in>set xs. hf t < n"
    and D: "off + length xs \<le> length D"
    and k: "k \<le> length xs"
  shows "case fold (scatter_step hf off) (take k xs) (D, C0) of (D', C') \<Rightarrow>
           length D' = length D \<and> length C' = n \<and>
           (\<forall>p<n. C' ! p = count_below hf xs p + count_eq hf (take k xs) p) \<and>
           (\<forall>j<k. D' ! (off + scatter_pos hf xs j) = xs ! j) \<and>
           (\<forall>x. (\<forall>j<k. x \<noteq> off + scatter_pos hf xs j) \<longrightarrow> D' ! x = D ! x)"
  using k
proof (induction k)
  case 0
  with C0 show ?case by (simp add: count_eq_def)
next
  case (Suc k)
  then have k: "k < length xs" by simp
  obtain Dk Ck where f: "fold (scatter_step hf off) (take k xs) (D, C0) = (Dk, Ck)"
    by (cases "fold (scatter_step hf off) (take k xs) (D, C0)")
  from Suc.IH f k have len: "length Dk = length D" "length Ck = n"
    and Ck: "\<forall>p<n. Ck ! p = count_below hf xs p + count_eq hf (take k xs) p"
    and Dk: "\<forall>j<k. Dk ! (off + scatter_pos hf xs j) = xs ! j"
    and un: "\<forall>x. (\<forall>j<k. x \<noteq> off + scatter_pos hf xs j) \<longrightarrow> Dk ! x = D ! x"
    by simp_all
  let ?t = "xs ! k" and ?h = "hf (xs ! k)"
  from hf k have h: "?h < n" by simp
  with Ck have ck: "Ck ! ?h = scatter_pos hf xs k" by (simp add: scatter_pos_def)
  have pk: "off + scatter_pos hf xs k < length Dk"
    using scatter_pos_bound [OF k, of hf] D len by simp
  have st: "fold (scatter_step hf off) (take (Suc k) xs) (D, C0) =
      (Dk[off + scatter_pos hf xs k := ?t], Ck[?h := scatter_pos hf xs k + 1])"
    using k by (simp add: take_Suc_conv_app_nth f scatter_step_def ck)
  have 1: "\<forall>p<n. (Ck[?h := scatter_pos hf xs k + 1]) ! p =
      count_below hf xs p + count_eq hf (take (Suc k) xs) p"
  proof (intro allI impI)
    fix p assume p: "p < n"
    show "(Ck[?h := scatter_pos hf xs k + 1]) ! p =
      count_below hf xs p + count_eq hf (take (Suc k) xs) p"
    proof (cases "p = ?h")
      case True
      then show ?thesis
        using h len by (simp add: count_eq_take_Suc [OF k] scatter_pos_def)
    next
      case False
      then show ?thesis
        using p Ck by (simp add: count_eq_take_Suc [OF k])
    qed
  qed
  have 2: "\<forall>j<Suc k. (Dk[off + scatter_pos hf xs k := ?t]) ! (off + scatter_pos hf xs j) = xs ! j"
  proof (intro allI impI)
    fix j assume j: "j < Suc k"
    show "(Dk[off + scatter_pos hf xs k := ?t]) ! (off + scatter_pos hf xs j) = xs ! j"
    proof (cases "j = k")
      case True
      then show ?thesis using pk by simp
    next
      case False
      with j have jk: "j < k" by simp
      from scatter_pos_inj [OF jk k, of hf] Dk jk show ?thesis by simp
    qed
  qed
  have 3: "\<forall>x. (\<forall>j<Suc k. x \<noteq> off + scatter_pos hf xs j) \<longrightarrow>
      (Dk[off + scatter_pos hf xs k := ?t]) ! x = D ! x"
  proof (intro allI impI)
    fix x assume a: "\<forall>j<Suc k. x \<noteq> off + scatter_pos hf xs j"
    then have "x \<noteq> off + scatter_pos hf xs k" "\<forall>j<k. x \<noteq> off + scatter_pos hf xs j"
      by simp_all
    with un show "(Dk[off + scatter_pos hf xs k := ?t]) ! x = D ! x" by simp
  qed
  from 1 2 3 len show ?case unfolding st by simp
qed

lemma scatter_fold_unchanged:
  assumes "length C0 = n" "\<forall>p<n. C0 ! p = count_below hf xs p"
    and "\<forall>t\<in>set xs. hf t < n" and "off + length xs \<le> length D" and "k \<le> length xs"
    and "x < off \<or> off + length xs \<le> x"
  shows "fst (fold (scatter_step hf off) (take k xs) (D, C0)) ! x = D ! x"
proof -
  have "\<forall>j<k. x \<noteq> off + scatter_pos hf xs j"
  proof (intro allI impI)
    fix j assume "j < k"
    with assms(5) have "j < length xs" by simp
    from scatter_pos_bound [OF this, of hf] assms(6)
    show "x \<noteq> off + scatter_pos hf xs j" by auto
  qed
  with scatter_fold_invariant [OF assms(1-5)] show ?thesis
    by (simp add: case_prod_unfold)
qed

lemma scatter_fold_result:
  assumes "length C0 = n" "\<forall>p<n. C0 ! p = count_below hf xs p"
    and "\<forall>t\<in>set xs. hf t < n" and "off + length xs \<le> length D"
  shows "case fold (scatter_step hf off) xs (D, C0) of (D', C') \<Rightarrow>
           length D' = length D \<and> length C' = n \<and>
           (\<forall>p<n. C' ! p = count_below hf xs (Suc p)) \<and>
           (\<forall>x<length xs. D' ! (off + x) = sorted_block hf n xs ! x) \<and>
           (\<forall>x. x < off \<or> off + length xs \<le> x \<longrightarrow> D' ! x = D ! x)"
proof -
  obtain D' C' where f: "fold (scatter_step hf off) xs (D, C0) = (D', C')"
    by (cases "fold (scatter_step hf off) xs (D, C0)")
  from scatter_fold_invariant [OF assms le_refl] f
  have len: "length D' = length D" "length C' = n"
    and C': "\<forall>p<n. C' ! p = count_below hf xs p + count_eq hf xs p"
    and D': "\<forall>j<length xs. D' ! (off + scatter_pos hf xs j) = xs ! j"
    by simp_all
  have a: "\<forall>x<length xs. D' ! (off + x) = sorted_block hf n xs ! x"
  proof (intro allI impI)
    fix x assume "x < length xs"
    from scatter_pos_surj [OF this, of hf] obtain j where j: "j < length xs"
      and x: "scatter_pos hf xs j = x" by auto
    from assms(3) j have "hf (xs ! j) < n" by simp
    from sorted_block_scatter_pos [of j xs hf n, OF j this] D' j x
    show "D' ! (off + x) = sorted_block hf n xs ! x" by auto
  qed
  have b: "\<forall>x. x < off \<or> off + length xs \<le> x \<longrightarrow> D' ! x = D ! x"
    using scatter_fold_unchanged [OF assms le_refl] f by simp
  from len C' a b show ?thesis unfolding f by (simp add: count_below_Suc)
qed

section \<open>The loops of one block\<close>

lemma fold_index:
  "from + k \<le> length T \<Longrightarrow>
     fold (\<lambda>j. f (T ! j)) [from..<from + k] s = fold f (take k (drop from T)) s"
proof (induction k arbitrary: s)
  case 0
  show ?case by simp
next
  case (Suc k)
  then have k: "k < length (drop from T)" by simp
  have "take (Suc k) (drop from T) = take k (drop from T) @ [T ! (from + k)]"
    using take_Suc_conv_app_nth [OF k] Suc.prems by simp
  moreover have "[from..<from + Suc k] = [from..<from + k] @ [from + k]" by simp
  ultimately show ?case using Suc.IH [of s] Suc.prems by simp
qed

lemma hist_fold:
  "length (fold (\<lambda>t H. H[hf t := H ! hf t + 1]) xs H0) = length H0 \<and>
   (\<forall>p<length H0. fold (\<lambda>t H. H[hf t := H ! hf t + 1]) xs H0 ! p = H0 ! p + count_eq hf xs p)"
proof (induction xs arbitrary: H0)
  case Nil
  show ?case by (simp add: count_eq_def)
next
  case (Cons t xs)
  show ?case
    using Cons.IH [of "H0[hf t := H0 ! hf t + 1]"]
    by (auto simp: count_eq_def nth_list_update)
qed

lemma block_histogram_eq:
  assumes "lo \<le> hi" "hi \<le> length T"
  shows "length (block_histogram msk shift n T lo hi) = n"
    and "\<forall>p<n. block_histogram msk shift n T lo hi ! p =
           count_eq (hashf msk shift) (take (hi - lo) (drop lo T)) p"
proof -
  let ?hf = "hashf msk shift"
  let ?blk = "take (hi - lo) (drop lo T)"
  have "block_histogram msk shift n T lo hi =
      fold (\<lambda>j. (\<lambda>t H. H[?hf t := H ! ?hf t + 1]) (T ! j)) [lo..<lo + (hi - lo)] (replicate n 0)"
    using assms(1) by (simp add: block_histogram_def hashf_def Let_def)
  also have "\<dots> = fold (\<lambda>t H. H[?hf t := H ! ?hf t + 1]) ?blk (replicate n 0)"
    using assms by (intro fold_index) simp
  finally have e: "block_histogram msk shift n T lo hi =
      fold (\<lambda>t H. H[?hf t := H ! ?hf t + 1]) ?blk (replicate n 0)" .
  from hist_fold [of ?hf ?blk "replicate n 0"]
  show "length (block_histogram msk shift n T lo hi) = n"
    and "\<forall>p<n. block_histogram msk shift n T lo hi ! p = count_eq ?hf ?blk p"
    unfolding e by simp_all
qed

lemma prefix_fold:
  assumes "k \<le> length H"
  shows "case fold (\<lambda>j (Histo, accum). let pre_accum = Histo ! j
                                    in (Histo[j := accum], accum + pre_accum))
            [0..<k] (H, 0) of (H', acc) \<Rightarrow>
           length H' = length H \<and> acc = sum_list (take k H) \<and>
           (\<forall>j<k. H' ! j = sum_list (take j H)) \<and> (\<forall>j. k \<le> j \<longrightarrow> H' ! j = H ! j)"
  using assms
proof (induction k)
  case 0
  show ?case by simp
next
  case (Suc k)
  then have k: "k < length H" by simp
  from Suc show ?case
    by (auto simp: case_prod_unfold Let_def take_Suc_conv_app_nth [OF k] nth_list_update less_Suc_eq)
qed

lemma sum_take_count:
  assumes "\<forall>p<length H. H ! p = count_eq hf xs p" "j \<le> length H"
  shows "sum_list (take j H) = count_below hf xs j"
  using assms(2)
proof (induction j)
  case 0
  show ?case by simp
next
  case (Suc j)
  then have j: "j < length H" by simp
  with Suc assms(1) show ?case
    by (simp add: take_Suc_conv_app_nth [OF j] count_below_Suc)
qed

lemma prefix_sum_eq:
  assumes "length H = n" "\<forall>p<n. H ! p = count_eq hf xs p"
  shows "length (prefix_sum n H) = n"
    and "\<forall>p<n. prefix_sum n H ! p = count_below hf xs p"
proof -
  from prefix_fold [of n H] assms(1)
  have 1: "length (prefix_sum n H) = n"
    and 2: "\<forall>j<n. prefix_sum n H ! j = sum_list (take j H)"
    by (simp_all add: prefix_sum_def case_prod_unfold)
  show "length (prefix_sum n H) = n" by (rule 1)
  show "\<forall>p<n. prefix_sum n H ! p = count_below hf xs p"
    using 2 sum_take_count [of H hf xs] assms by simp
qed

lemma scatter_step_apply:
  "scatter_step hf off t (D, C) = (D[off + C ! hf t := t], C[hf t := C ! hf t + 1])"
  by (simp add: scatter_step_def)

lemma scatter_upt_Suc:
  "scatter msk shift Dir lo (lo + Suc k) X =
     (case scatter msk shift Dir lo (lo + k) X of (T, TmpBlock, Histo) \<Rightarrow>
        let t = T ! (lo + k); h = hashf msk shift t; d = Histo ! h
        in (case Dir of
              DirTmpBlock \<Rightarrow> (T, TmpBlock[d := t], Histo[h := d + 1])
            | DirT off \<Rightarrow> (T[off + d := t], TmpBlock, Histo[h := d + 1])))"
  by (simp add: scatter_def hashf_def case_prod_unfold Let_def)

lemma scatter_DirTmpBlock:
  assumes "lo + k \<le> length T"
  shows "scatter msk shift DirTmpBlock lo (lo + k) (T, Tmp, C0) =
     (T, fst (fold (scatter_step (hashf msk shift) 0) (take k (drop lo T)) (Tmp, C0)),
         snd (fold (scatter_step (hashf msk shift) 0) (take k (drop lo T)) (Tmp, C0)))"
  using assms
proof (induction k)
  case 0
  show ?case by (simp add: scatter_def)
next
  case (Suc k)
  then have k: "k < length (drop lo T)" by simp
  have t: "take (Suc k) (drop lo T) = take k (drop lo T) @ [T ! (lo + k)]"
    using take_Suc_conv_app_nth [OF k] Suc.prems by simp
  let ?R = "fold (scatter_step (hashf msk shift) 0) (take k (drop lo T)) (Tmp, C0)"
  obtain Dk Ck where R: "?R = (Dk, Ck)" by (cases ?R)
  from Suc have sc: "scatter msk shift DirTmpBlock lo (lo + k) (T, Tmp, C0) = (T, Dk, Ck)"
    by (simp add: R)
  show ?case
    unfolding scatter_upt_Suc t sc
    by (simp add: R scatter_step_apply Let_def)
qed

lemma scatter_DirT:
  assumes C0: "length C0 = n" "\<forall>p<n. C0 ! p = count_below (hashf msk shift) blk p"
    and hf: "\<forall>t\<in>set blk. hashf msk shift t < n"
    and blk: "blk = take len (drop lo T)" "lo + len \<le> length T"
    and off: "off + len \<le> lo"
    and k: "k \<le> len"
  shows "scatter msk shift (DirT off) lo (lo + k) (T, Tmp, C0) =
     (fst (fold (scatter_step (hashf msk shift) off) (take k blk) (T, C0)), Tmp,
      snd (fold (scatter_step (hashf msk shift) off) (take k blk) (T, C0)))"
  using k
proof (induction k)
  case 0
  show ?case by (simp add: scatter_def)
next
  case (Suc k)
  let ?hf = "hashf msk shift"
  let ?R = "fold (scatter_step ?hf off) (take k blk) (T, C0)"
  from blk have lb: "length blk = len" by simp
  from Suc.prems have k: "k < length blk" "k \<le> length blk" using lb by simp_all
  have D: "off + length blk \<le> length T" using off blk(2) lb by simp
  have "fst ?R ! (lo + k) = T ! (lo + k)"
    by (rule scatter_fold_unchanged [OF C0 hf D k(2)]) (use off lb in simp)
  also have "\<dots> = blk ! k" using k blk by simp
  finally have rd: "fst ?R ! (lo + k) = blk ! k" .
  have t: "take (Suc k) blk = take k blk @ [blk ! k]"
    by (rule take_Suc_conv_app_nth [OF k(1)])
  obtain Dk Ck where R: "?R = (Dk, Ck)" by (cases ?R)
  from Suc.IH Suc.prems have sc: "scatter msk shift (DirT off) lo (lo + k) (T, Tmp, C0) =
      (Dk, Tmp, Ck)" by (simp add: R)
  from rd have rd': "Dk ! (lo + k) = blk ! k" by (simp add: R)
  show ?case
    unfolding scatter_upt_Suc t sc
    by (simp add: R rd' scatter_step_apply Let_def)
qed

section \<open>The layout of the blocks\<close>

lemma block_from_0 [simp]: "block_from P 0 = 0"
  by (simp add: block_from_def)

lemma block_from_Suc: "block_from P (Suc b) = block_from P b + block_len P b"
  by (simp add: block_from_def block_len_def min_def)

lemma block_from_mono: "b \<le> b' \<Longrightarrow> block_from P b \<le> block_from P b'"
  unfolding block_from_def by (intro add_mono mult_le_mono1 min.mono) simp_all

lemma block_from_num_blocks:
  assumes "icp_wf P"
  shows "block_from P (icp_num_blocks P) = icp_N P"
proof -
  from assms have nb: "0 < icp_num_blocks P"
    and a: "icp_avg_block_size P = icp_N P div icp_num_blocks P"
    by (simp_all add: icp_wf_def)
  from nb have "icp_N P mod icp_num_blocks P < icp_num_blocks P" by simp
  then have "min (icp_num_blocks P) (icp_N P mod icp_num_blocks P) = icp_N P mod icp_num_blocks P"
    by simp
  then show ?thesis by (simp add: block_from_def a)
qed

lemma block_len_pos:
  assumes "icp_wf P"
  shows "1 \<le> block_len P b"
proof -
  from assms have "0 < icp_num_blocks P" "icp_num_blocks P \<le> icp_N P"
    and a: "icp_avg_block_size P = icp_N P div icp_num_blocks P"
    by (simp_all add: icp_wf_def)
  then have "1 \<le> icp_N P div icp_num_blocks P"
    by (simp add: less_eq_div_iff_mult_less_eq)
  then show ?thesis by (simp add: block_len_def a)
qed

lemma block_len_0: "icp_wf P \<Longrightarrow> block_len P 0 = icp_first_block_size P"
  by (simp add: block_len_def icp_wf_def)

lemma block_len_le_first: "icp_wf P \<Longrightarrow> block_len P b \<le> icp_first_block_size P"
  by (auto simp: block_len_def icp_wf_def)

lemma block_from_1: "icp_wf P \<Longrightarrow> block_from P (Suc 0) = icp_first_block_size P"
  by (simp add: block_from_Suc block_len_0)

lemma first_le_block_from:
  assumes "icp_wf P" "1 \<le> b"
  shows "icp_first_block_size P \<le> block_from P b"
  using block_from_mono [of "Suc 0" b P] assms by (simp add: block_from_1)

lemma block_end_le_N:
  assumes "icp_wf P" "b < icp_num_blocks P"
  shows "block_from P b + block_len P b \<le> icp_N P"
proof -
  from assms(2) have "block_from P (Suc b) \<le> block_from P (icp_num_blocks P)"
    by (intro block_from_mono) simp
  then show ?thesis by (simp add: block_from_Suc block_from_num_blocks [OF assms(1)])
qed

lemma block_from_less_N:
  assumes "icp_wf P" "b < icp_num_blocks P"
  shows "block_from P b < icp_N P"
  using block_end_le_N [OF assms] block_len_pos [OF assms(1), of b] by simp

lemma first_le_N: "icp_wf P \<Longrightarrow> icp_first_block_size P \<le> icp_N P"
  using block_end_le_N [of P 0] by (simp add: block_len_0 icp_wf_def)

lemma block_from_ge_N:
  assumes "icp_wf P" "icp_num_blocks P \<le> b"
  shows "icp_N P \<le> block_from P b"
  using block_from_mono [OF assms(2), of P] by (simp add: block_from_num_blocks [OF assms(1)])

lemma length_block_tuples:
  assumes "icp_wf P" "b < icp_num_blocks P" "length T0 = icp_N P"
  shows "length (block_tuples P T0 b) = block_len P b"
  using block_end_le_N [OF assms(1,2)] assms(3) by (simp add: block_tuples_def)

section \<open>One iteration of the loop of ICP\<close>

lemma ICP_block_run:
  assumes "len = icp_avg_block_size P + (if st_remainder s > 0 then 1 else 0)"
    and "st_i s + len \<le> icp_N P"
    and "st_block s < icp_num_blocks P - 1 \<or> st_i s + len = icp_N P"
    and "(if sid = IdS \<and> st_block s = 0 \<and> \<not> Radix_user_defined G \<and> \<not> ChangedRadixS G
          then ICP_estimate_skew G tid others
                 (block_histogram (icp_mask P) (icp_shift P) (icp_fanout P) (st_T s)
                    (st_i s) (st_i s + len))
                 (icp_first_block_size P)
          else Inr (G, False)) = Inr (G', False)"
    and "Histo = prefix_sum (icp_fanout P)
           (block_histogram (icp_mask P) (icp_shift P) (icp_fanout P) (st_T s)
              (st_i s) (st_i s + len))"
    and "Histo ! 0 = 0"
    and "scatter (icp_mask P) (icp_shift P) (st_Directory s) (st_i s) (st_i s + len)
           (st_T s, st_TmpBlock s, Histo) = (T', Tmp', Histo')"
    and "Histo' ! (icp_fanout P - 1) = len"
  shows "ICP_block sid tid others P G s =
     Inr (G', Some \<lparr>st_i = st_i s + len,
            st_remainder = (if st_remainder s > 0 then st_remainder s - 1 else st_remainder s),
            st_block = st_block s + 1, st_T = T', st_TmpBlock = Tmp',
            st_Directory = (case st_Directory s of DirTmpBlock \<Rightarrow> DirT 0
                            | DirT off \<Rightarrow> DirT (off + len)),
            st_Pos = (st_Pos s)[st_block s := block_positions P (st_block s) (st_i s) len Histo]\<rparr>)"
  unfolding ICP_block_def Let_def assms(1) [symmetric] assms(5) [symmetric]
  using assms(2,3,6,8)
  by (simp add: assms(4) assms(7) ebind_def split: directory.split)

lemma block_positions_expected:
  assumes wf: "icp_wf P"
    and H: "length Histo = icp_fanout P"
       "\<forall>p<icp_fanout P. Histo ! p = count_below (icp_hash P) (block_tuples P T0 b) p"
    and len: "count_below (icp_hash P) (block_tuples P T0 b) (icp_fanout P) = len"
  shows "block_positions P b (block_from P b) len Histo = expected_positions P T0 b"
  unfolding block_positions_def expected_positions_def
proof (rule map_cong [OF refl])
  fix m assume "m \<in> set [0..<icp_num_sub_blocks P]"
  then have m: "m < icp_num_sub_blocks P" by simp
  let ?c = "icp_sub_block_partitions P"
  from wf have c: "1 \<le> ?c" and le: "icp_num_sub_blocks P * ?c \<le> icp_fanout P"
    by (simp_all add: icp_wf_def)
  from m have "Suc m * ?c \<le> icp_num_sub_blocks P * ?c"
    by (intro mult_le_mono1) simp
  with le have q: "m * ?c + ?c \<le> icp_fanout P" by simp
  with c have p: "m * ?c < icp_fanout P" by simp
  have r: "(if b = 0 then icp_N P else block_from P b) - icp_first_block_size P = block_offset P b"
    by (simp add: block_offset_def)
  show "(let p = m * ?c; q = p + ?c;
             r = (if b = 0 then icp_N P else block_from P b) - icp_first_block_size P
         in \<lparr>bstart = r + Histo ! p,
             bend = r + (if q = icp_fanout P then len else Histo ! q)\<rparr>) =
        \<lparr>bstart = block_offset P b + count_below (icp_hash P) (block_tuples P T0 b) (m * ?c),
         bend = block_offset P b + count_below (icp_hash P) (block_tuples P T0 b) ((m + 1) * ?c)\<rparr>"
    unfolding Let_def r using p q H(2) len by (auto simp: add.commute)
qed

lemma icp_inv_block:
  assumes "icp_wf P" "icp_inv P T0 b s" "b < icp_num_blocks P" "length T0 = icp_N P"
  shows "take (block_len P b) (drop (block_from P b) (st_T s)) = block_tuples P T0 b"
proof (rule nth_equalityI)
  from assms have l: "length (st_T s) = icp_N P" by (simp add: icp_inv_def)
  from block_end_le_N [OF assms(1,3)] have e: "block_from P b + block_len P b \<le> icp_N P" .
  show "length (take (block_len P b) (drop (block_from P b) (st_T s))) = length (block_tuples P T0 b)"
    using l e assms(4) by (simp add: block_tuples_def)
  fix x assume "x < length (take (block_len P b) (drop (block_from P b) (st_T s)))"
  then have x: "x < block_len P b" by simp
  with e have "block_from P b + x < icp_N P" by simp
  with assms(2) have "st_T s ! (block_from P b + x) = T0 ! (block_from P b + x)"
    by (simp add: icp_inv_def)
  with x e l assms(4)
  show "take (block_len P b) (drop (block_from P b) (st_T s)) ! x = block_tuples P T0 b ! x"
    by (simp add: block_tuples_def)
qed

lemma hashf_icp_hash: "hashf (icp_mask P) (icp_shift P) = icp_hash P"
  by (simp add: fun_eq_iff hashf_def icp_hash_def)

lemma icp_inv_step:
  assumes wf: "icp_wf P" and inv: "icp_inv P T0 b s" and b: "b < icp_num_blocks P"
    and T0: "length T0 = icp_N P"
    and E: "(if sid = IdS \<and> st_block s = 0 \<and> \<not> Radix_user_defined G \<and> \<not> ChangedRadixS G
          then ICP_estimate_skew G tid others
                 (block_histogram (icp_mask P) (icp_shift P) (icp_fanout P) (st_T s)
                    (st_i s) (st_i s + block_len P b))
                 (icp_first_block_size P)
          else Inr (G, False)) = Inr (G', False)"
  shows "\<exists>s'. ICP_block sid tid others P G s = Inr (G', Some s') \<and> icp_inv P T0 (Suc b) s'"
proof -
  let ?hf = "icp_hash P" and ?n = "icp_fanout P" and ?F = "icp_first_block_size P"
  let ?N = "icp_N P" and ?nb = "icp_num_blocks P"
  let ?from = "block_from P b" and ?len = "block_len P b"
  let ?blk = "block_tuples P T0 b"
  let ?srt = "sorted_block ?hf ?n ?blk"
  from inv have sb: "st_block s = b" and si: "st_i s = ?from"
    and sr: "st_remainder s = ?N mod ?nb - b"
    and lT: "length (st_T s) = ?N" and lTmp: "length (st_TmpBlock s) = ?F"
    and lPos: "length (st_Pos s) = ?nb"
    and dir: "st_Directory s = (if b = 0 then DirTmpBlock else DirT (?from - ?F))"
    and agree: "\<forall>x. ?from \<le> x \<and> x < ?N \<longrightarrow> st_T s ! x = T0 ! x"
    and tmp: "0 < b \<longrightarrow> (\<forall>x<?F. st_TmpBlock s ! x = sorted_block ?hf ?n (block_tuples P T0 0) ! x)"
    and blocks: "\<forall>b'. 0 < b' \<and> b' < b \<longrightarrow> (\<forall>x<block_len P b'.
        st_T s ! (block_from P b' - ?F + x) = sorted_block ?hf ?n (block_tuples P T0 b') ! x)"
    and pos: "\<forall>b'<b. st_Pos s ! b' = expected_positions P T0 b'"
    by (simp_all add: icp_inv_def)
  have len: "?len = icp_avg_block_size P + (if st_remainder s > 0 then 1 else 0)"
    by (simp add: block_len_def sr)
  have rem: "(if st_remainder s > 0 then st_remainder s - 1 else st_remainder s) = ?N mod ?nb - Suc b"
    by (simp add: sr)
  have e: "?from + ?len \<le> ?N" by (rule block_end_le_N [OF wf b])
  have a2: "st_block s < ?nb - 1 \<or> st_i s + ?len = ?N"
  proof (cases "Suc b = ?nb")
    case True
    then have "block_from P (Suc b) = ?N" using block_from_num_blocks [OF wf] by simp
    then show ?thesis by (simp add: block_from_Suc si)
  next
    case False
    with b have "b < ?nb - 1" by simp
    then show ?thesis by (simp add: sb)
  qed
  have blk: "take ?len (drop ?from (st_T s)) = ?blk" by (rule icp_inv_block [OF wf inv b T0])
  have lblk: "length ?blk = ?len" by (rule length_block_tuples [OF wf b T0])
  from wf have hf: "\<forall>t\<in>set ?blk. ?hf t < ?n" by (simp add: icp_wf_def)
  from wf have "?hf (Tuple 0 0) < ?n" unfolding icp_wf_def by blast
  then have n1: "0 < ?n" by simp
  define H0 where "H0 = block_histogram (icp_mask P) (icp_shift P) ?n (st_T s) ?from (?from + ?len)"
  have H0: "length H0 = ?n" "\<forall>p<?n. H0 ! p = count_eq ?hf ?blk p"
    using block_histogram_eq [where lo = ?from and hi = "?from + ?len" and T = "st_T s"
        and msk = "icp_mask P" and shift = "icp_shift P" and n = ?n] e lT
    by (simp_all add: H0_def hashf_icp_hash blk)
  define Histo where "Histo = prefix_sum ?n H0"
  have Hi: "length Histo = ?n" "\<forall>p<?n. Histo ! p = count_below ?hf ?blk p"
    using prefix_sum_eq [OF H0] by (simp_all add: Histo_def)
  have h0: "Histo ! 0 = 0" using Hi(2) n1 by simp
  have call: "count_below ?hf ?blk ?n = ?len"
    using count_below_all [OF hf] lblk by simp
  have Fle: "?len \<le> ?F" by (rule block_len_le_first [OF wf])
  obtain T' Tmp' Histo' where sc: "scatter (icp_mask P) (icp_shift P) (st_Directory s) ?from
      (?from + ?len) (st_T s, st_TmpBlock s, Histo) = (T', Tmp', Histo')"
    by (cases "scatter (icp_mask P) (icp_shift P) (st_Directory s) ?from
      (?from + ?len) (st_T s, st_TmpBlock s, Histo)") auto
  have res: "length T' = ?N \<and> length Tmp' = ?F \<and> Histo' ! (?n - 1) = ?len \<and>
      (if b = 0 then T' = st_T s \<and> (\<forall>x<?F. Tmp' ! x = ?srt ! x)
       else Tmp' = st_TmpBlock s \<and> (\<forall>x<?len. T' ! (?from - ?F + x) = ?srt ! x) \<and>
            (\<forall>x. x < ?from - ?F \<or> ?from - ?F + ?len \<le> x \<longrightarrow> T' ! x = st_T s ! x))"
  proof (cases "b = 0")
    case True
    then have F: "?len = ?F" by (simp add: block_len_0 [OF wf])
    let ?R = "fold (scatter_step ?hf 0) ?blk (st_TmpBlock s, Histo)"
    have "?from + ?len \<le> length (st_T s)" using e lT by simp
    from scatter_DirTmpBlock [where lo = ?from and k = ?len and T = "st_T s" and msk = "icp_mask P"
        and shift = "icp_shift P" and Tmp = "st_TmpBlock s" and ?C0.0 = Histo, OF this]
    have "scatter (icp_mask P) (icp_shift P) DirTmpBlock ?from (?from + ?len)
        (st_T s, st_TmpBlock s, Histo) = (st_T s, fst ?R, snd ?R)"
      unfolding hashf_icp_hash blk .
    moreover from dir True have "st_Directory s = DirTmpBlock" by simp
    ultimately have eq: "T' = st_T s" "Tmp' = fst ?R" "Histo' = snd ?R"
      using sc by simp_all
    have "0 + length ?blk \<le> length (st_TmpBlock s)" using lblk lTmp F by simp
    from scatter_fold_result [OF Hi hf this]
    have "length (fst ?R) = ?F" "\<forall>p<?n. snd ?R ! p = count_below ?hf ?blk (Suc p)"
      "\<forall>x<?len. fst ?R ! x = ?srt ! x"
      using lTmp lblk by (simp_all add: case_prod_unfold)
    moreover from this(2) n1 call have "snd ?R ! (?n - 1) = ?len" by simp
    ultimately show ?thesis using True eq lT F by simp
  next
    case False
    then have b1: "1 \<le> b" by simp
    let ?off = "?from - ?F"
    have Ffrom: "?F \<le> ?from" by (rule first_le_block_from [OF wf b1])
    then have offle: "?off + ?len \<le> ?from" using Fle by simp
    let ?R = "fold (scatter_step ?hf ?off) ?blk (st_T s, Histo)"
    have "scatter (icp_mask P) (icp_shift P) (DirT ?off) ?from (?from + ?len)
        (st_T s, st_TmpBlock s, Histo) =
      (fst (fold (scatter_step (hashf (icp_mask P) (icp_shift P)) ?off) (take ?len ?blk) (st_T s, Histo)),
       st_TmpBlock s,
       snd (fold (scatter_step (hashf (icp_mask P) (icp_shift P)) ?off) (take ?len ?blk) (st_T s, Histo)))"
    proof (rule scatter_DirT [where n = ?n and len = ?len])
      show "length Histo = ?n" by (rule Hi(1))
      show "\<forall>p<?n. Histo ! p = count_below (hashf (icp_mask P) (icp_shift P)) ?blk p"
        using Hi(2) by (simp add: hashf_icp_hash)
      show "\<forall>t\<in>set ?blk. hashf (icp_mask P) (icp_shift P) t < ?n"
        using hf by (simp add: hashf_icp_hash)
      show "?blk = take ?len (drop ?from (st_T s))" by (rule blk [symmetric])
      show "?from + ?len \<le> length (st_T s)" using e lT by simp
      show "?off + ?len \<le> ?from" by (rule offle)
      show "?len \<le> ?len" by simp
    qed
    with sc dir False lblk
    have eq: "T' = fst ?R" "Tmp' = st_TmpBlock s" "Histo' = snd ?R"
      by (simp_all add: hashf_icp_hash)
    have "?off + length ?blk \<le> length (st_T s)" using lblk lT e offle by simp
    from scatter_fold_result [OF Hi hf this]
    have "length (fst ?R) = ?N" "\<forall>p<?n. snd ?R ! p = count_below ?hf ?blk (Suc p)"
      "\<forall>x<?len. fst ?R ! (?off + x) = ?srt ! x"
      "\<forall>x. x < ?off \<or> ?off + ?len \<le> x \<longrightarrow> fst ?R ! x = st_T s ! x"
      using lT lblk by (simp_all add: case_prod_unfold)
    moreover from this(2) n1 call have "snd ?R ! (?n - 1) = ?len" by simp
    ultimately show ?thesis using False eq lTmp by simp
  qed
  define s' where "s' = \<lparr>st_i = st_i s + ?len,
            st_remainder = (if st_remainder s > 0 then st_remainder s - 1 else st_remainder s),
            st_block = st_block s + 1, st_T = T', st_TmpBlock = Tmp',
            st_Directory = (case st_Directory s of DirTmpBlock \<Rightarrow> DirT 0
                            | DirT off \<Rightarrow> DirT (off + ?len)),
            st_Pos = (st_Pos s)[st_block s := block_positions P (st_block s) (st_i s) ?len Histo]\<rparr>"
  have run: "ICP_block sid tid others P G s = Inr (G', Some s')"
    unfolding s'_def
  proof (rule ICP_block_run [OF len])
    show "st_i s + ?len \<le> ?N" using e si by simp
    show "st_block s < ?nb - 1 \<or> st_i s + ?len = ?N" by (rule a2)
    show "(if sid = IdS \<and> st_block s = 0 \<and> \<not> Radix_user_defined G \<and> \<not> ChangedRadixS G
          then ICP_estimate_skew G tid others
                 (block_histogram (icp_mask P) (icp_shift P) ?n (st_T s) (st_i s) (st_i s + ?len)) ?F
          else Inr (G, False)) = Inr (G', False)" by (rule E)
    show "Histo = prefix_sum ?n
        (block_histogram (icp_mask P) (icp_shift P) ?n (st_T s) (st_i s) (st_i s + ?len))"
      by (simp add: Histo_def H0_def si)
    show "Histo ! 0 = 0" by (rule h0)
    show "scatter (icp_mask P) (icp_shift P) (st_Directory s) (st_i s) (st_i s + ?len)
        (st_T s, st_TmpBlock s, Histo) = (T', Tmp', Histo')" using sc si by simp
    show "Histo' ! (?n - 1) = ?len" using res by simp
  qed
  have posrow: "block_positions P b ?from ?len Histo = expected_positions P T0 b"
    by (rule block_positions_expected [OF wf Hi call])
  have i1: "st_block s' = Suc b" "st_i s' = block_from P (Suc b)"
    "st_remainder s' = ?N mod ?nb - Suc b" "length (st_T s') = ?N"
    "length (st_TmpBlock s') = ?F" "length (st_Pos s') = ?nb"
    using res by (simp_all add: s'_def sb si block_from_Suc rem lPos)
  have i2: "st_Directory s' = DirT (block_from P (Suc b) - ?F)"
  proof (cases "b = 0")
    case True
    then show ?thesis by (simp add: s'_def dir block_from_Suc block_len_0 [OF wf])
  next
    case False
    then have "?F \<le> ?from" by (intro first_le_block_from [OF wf]) simp
    with False show ?thesis by (simp add: s'_def dir block_from_Suc)
  qed
  have i3: "\<forall>x. block_from P (Suc b) \<le> x \<and> x < ?N \<longrightarrow> st_T s' ! x = T0 ! x"
  proof (intro allI impI)
    fix x assume x: "block_from P (Suc b) \<le> x \<and> x < ?N"
    then have x1: "?from + ?len \<le> x" "?from \<le> x" by (simp_all add: block_from_Suc)
    then have "?from - ?F + ?len \<le> x" by simp
    with res have "T' ! x = st_T s ! x" by (auto split: if_splits)
    with agree x x1 show "st_T s' ! x = T0 ! x" by (simp add: s'_def)
  qed
  have i4: "\<forall>x<?F. st_TmpBlock s' ! x = sorted_block ?hf ?n (block_tuples P T0 0) ! x"
    using res tmp by (cases "b = 0") (simp_all add: s'_def)
  have i5: "\<forall>b'. 0 < b' \<and> b' < Suc b \<longrightarrow> (\<forall>x<block_len P b'.
        st_T s' ! (block_from P b' - ?F + x) = sorted_block ?hf ?n (block_tuples P T0 b') ! x)"
  proof (intro allI impI)
    fix b' x assume b': "0 < b' \<and> b' < Suc b" and x: "x < block_len P b'"
    then have b0: "b \<noteq> 0" by simp
    show "st_T s' ! (block_from P b' - ?F + x) = sorted_block ?hf ?n (block_tuples P T0 b') ! x"
    proof (cases "b' = b")
      case True
      with res b0 x show ?thesis by (simp add: s'_def)
    next
      case False
      with b' have lt: "b' < b" by simp
      then have "block_from P (Suc b') \<le> ?from" by (intro block_from_mono) simp
      moreover have "?F \<le> block_from P b'" using b' by (intro first_le_block_from [OF wf]) simp
      ultimately have "block_from P b' - ?F + x < ?from - ?F"
        using x by (simp add: block_from_Suc)
      with res b0 have "T' ! (block_from P b' - ?F + x) = st_T s ! (block_from P b' - ?F + x)"
        by simp
      with blocks b' lt x show ?thesis by (simp add: s'_def)
    qed
  qed
  have i6: "\<forall>b'<Suc b. st_Pos s' ! b' = expected_positions P T0 b'"
  proof (intro allI impI)
    fix b' assume "b' < Suc b"
    then show "st_Pos s' ! b' = expected_positions P T0 b'"
      using pos posrow b lPos by (cases "b' = b") (simp_all add: s'_def sb si)
  qed
  from i1 i2 i3 i4 i5 i6 have "icp_inv P T0 (Suc b) s'"
    unfolding icp_inv_def by simp
  with run show ?thesis by blast
qed

section \<open>The loop and the whole of ICP\<close>

lemma icp_loop_inv:
  assumes wf: "icp_wf P" and T0: "length T0 = icp_N P"
  shows "icp_inv P T0 b s \<Longrightarrow> 1 \<le> b \<Longrightarrow> b \<le> icp_num_blocks P \<Longrightarrow>
     \<exists>s'. ICP_loop sid tid others P G s = Inr (G, Some s') \<and> icp_inv P T0 (icp_num_blocks P) s'"
proof (induction "icp_num_blocks P - b" arbitrary: b s)
  case 0
  then have b: "b = icp_num_blocks P" by simp
  with "0.prems"(1) have "st_i s = icp_N P"
    by (simp add: icp_inv_def block_from_num_blocks [OF wf])
  then have "ICP_loop sid tid others P G s = Inr (G, Some s)"
    by (subst ICP_loop.simps) simp
  with "0.prems"(1) b show ?case by simp
next
  case (Suc d)
  then have b: "b < icp_num_blocks P" by simp
  from Suc.prems(1) have si: "st_i s = block_from P b" and sb: "st_block s = b"
    by (simp_all add: icp_inv_def)
  from block_from_less_N [OF wf b] si have lt: "st_i s < icp_N P" by simp
  from sb Suc.prems(2)
  have E: "(if sid = IdS \<and> st_block s = 0 \<and> \<not> Radix_user_defined G \<and> \<not> ChangedRadixS G
          then ICP_estimate_skew G tid others
                 (block_histogram (icp_mask P) (icp_shift P) (icp_fanout P) (st_T s)
                    (st_i s) (st_i s + block_len P b))
                 (icp_first_block_size P)
          else Inr (G, False)) = Inr (G, False)"
    by simp
  from icp_inv_step [OF wf Suc.prems(1) b T0 E] obtain s1
    where s1: "ICP_block sid tid others P G s = Inr (G, Some s1)" "icp_inv P T0 (Suc b) s1"
    by blast
  have "d = icp_num_blocks P - Suc b" using Suc.hyps(2) by simp
  from Suc.hyps(1) [OF this s1(2)] b obtain s'
    where "ICP_loop sid tid others P G s1 = Inr (G, Some s')" "icp_inv P T0 (icp_num_blocks P) s'"
    by auto
  moreover have "ICP_loop sid tid others P G s = ICP_loop sid tid others P G s1"
    using lt s1(1) by (subst ICP_loop.simps) simp
  ultimately show ?case by auto
qed

lemma hash_bound: "unat (HASHx k (word_of_nat (2 ^ r) - 1) sh) < 2 ^ r"
proof -
  have "(word_of_nat (2 ^ r) - 1 :: 32 word) = mask r"
    by (simp add: mask_eq_exp_minus_1)
  then have "HASHx k (word_of_nat (2 ^ r) - 1) sh = take_bit r (drop_bit sh k)"
    by (simp add: HASHx_def take_bit_eq_mask)
  moreover have "unat (take_bit r (drop_bit sh k)) < 2 ^ r"
    by (simp add: unsigned_take_bit_eq)
  ultimately show ?thesis by simp
qed

lemma hash_bound_pow: "unat (HASHx k (2 ^ r - 1) sh) < 2 ^ r"
  using hash_bound [of k r sh] by simp

lemma div_ceil_ChunkSize:
  assumes "1 \<le> N"
  shows "\<exists>nb. div_ceil N ChunkSize = Inr nb \<and> 1 \<le> nb \<and> nb \<le> N"
proof -
  have C: "1 < ChunkSize" by (simp add: ChunkSize_def)
  let ?nb = "N div ChunkSize + (if 0 < N mod ChunkSize then 1 else 0)"
  have e: "div_ceil N ChunkSize = Inr ?nb" using C by (simp add: div_ceil_def)
  have "1 \<le> ?nb"
  proof (cases "0 < N mod ChunkSize")
    case False
    then have "N = ChunkSize * (N div ChunkSize)" by auto
    with assms have "0 < N div ChunkSize" by (cases "N div ChunkSize") auto
    with False show ?thesis by simp
  qed simp
  moreover have "?nb \<le> N"
  proof (cases "N div ChunkSize = 0")
    case True
    with assms show ?thesis by simp
  next
    case False
    have "N div ChunkSize < N" using C assms by (intro div_less_dividend) simp_all
    then show ?thesis by simp
  qed
  ultimately show ?thesis using e by blast
qed

lemma ICP_setup_wf:
  assumes "setup_ok G sid N radix"
  shows "\<exists>G1 P. ICP_setup G sid N radix = Inr (G1, P, N mod icp_num_blocks P) \<and> icp_wf P \<and>
           icp_N P = N \<and> icp_fanout P = 2 ^ radix \<and>
           div_ceil N ChunkSize = Inr (icp_num_blocks P) \<and>
           icp_sub_block_partitions P = 2 ^ radix div Threads_num_groups G \<and>
           icp_num_sub_blocks P =
             (if sid = IdS \<and> Radix_R G > Radix_S G then 1 else Threads_num_groups G) \<and>
           icp_mask P = word_of_nat (2 ^ radix) - 1 \<and>
           ChangedRadixS G1 = ChangedRadixS G \<and> Radix_user_defined G1 = Radix_user_defined G \<and>
           Radix_R G1 = Radix_R G \<and> Radix_S G1 = Radix_S G \<and> RelR_size G1 = RelR_size G \<and>
           RelS_size G1 = RelS_size G \<and> Threads_N G1 = Threads_N G \<and>
           HighSkewObserved G1 = HighSkewObserved G \<and>
           Threads_num_groups G1 = Threads_num_groups G \<and>
           (\<not> (sid = IdR \<and> Radix_S G = 0) \<longrightarrow> G1 = G \<and> icp_shift P = 0)"
proof -
  from assms have N: "1 \<le> N" and g: "1 \<le> Threads_num_groups G"
    and dv: "2 ^ radix mod Threads_num_groups G = 0"
    and R: "sid = IdR \<and> Radix_S G = 0 \<longrightarrow> 1 \<le> RelR_size G"
    by (simp_all add: setup_ok_def)
  obtain nb where nb: "div_ceil N ChunkSize = Inr nb" "1 \<le> nb" "nb \<le> N"
    using div_ceil_ChunkSize [OF N] by blast
  let ?g = "Threads_num_groups G"
  obtain sh G1 where sh: "ICP_shift G sid = Inr (sh, G1)"
    and G1: "G1 = (if sid = IdR \<and> Radix_S G = 0 then G\<lparr>ModelIII_shift := sh\<rparr> else G)"
    and sh0: "\<not> (sid = IdR \<and> Radix_S G = 0) \<longrightarrow> sh = 0"
  proof (cases "sid = IdR \<and> Radix_S G = 0")
    case True
    with R have "1 \<le> RelR_size G" by simp
    from lg_ceil_spec [OF this] obtain l where "lg_ceil (RelR_size G) = Inr l" by blast
    with True that show ?thesis by (simp add: ICP_shift_def ebind_def Let_def)
  next
    case False
    with that show ?thesis by (simp add: ICP_shift_def)
  qed
  have gG1: "Threads_num_groups G1 = ?g" "Radix_R G1 = Radix_R G" "Radix_S G1 = Radix_S G"
    by (simp_all add: G1)
  define P where "P = \<lparr>icp_shift = sh, icp_fanout = 2 ^ radix,
      icp_mask = word_of_nat (2 ^ radix) - 1, icp_N = N, icp_num_blocks = nb,
      icp_avg_block_size = N div nb,
      icp_first_block_size = N div nb + (if N mod nb > 0 then 1 else 0),
      icp_num_sub_blocks = (if sid = IdS \<and> Radix_R G > Radix_S G then 1 else ?g),
      icp_sub_block_partitions = 2 ^ radix div ?g\<rparr>"
  have e: "ICP_setup G sid N radix = Inr (G1, P, N mod nb)"
    unfolding ICP_setup_def sh
    using nb g dv by (simp add: ebind_def gG1 P_def Let_def)
  from dv have "(2::nat) ^ radix = ?g * (2 ^ radix div ?g)" by auto
  then have m: "?g * (2 ^ radix div ?g) = 2 ^ radix" by simp
  have sbp: "1 \<le> 2 ^ radix div ?g"
  proof (rule ccontr)
    assume "\<not> 1 \<le> 2 ^ radix div ?g"
    then have "2 ^ radix div ?g = 0" by simp
    with m show False by simp
  qed
  have "2 ^ radix div ?g \<le> 2 ^ radix" by (rule div_le_dividend)
  with m have le: "(if sid = IdS \<and> Radix_R G > Radix_S G then 1 else ?g) * (2 ^ radix div ?g) \<le> 2 ^ radix"
    by simp
  have hb: "\<forall>t. icp_hash P t < icp_fanout P"
    by (simp add: icp_hash_def P_def hash_bound_pow)
  have wf: "icp_wf P"
    unfolding icp_wf_def using nb sbp le hb by (simp add: P_def)
  show ?thesis
    using e wf nb(1) sh0 by (intro exI [of _ G1] exI [of _ P]) (simp add: P_def G1)
qed

lemma length_sorted_block_tuples:
  assumes "icp_wf P" "b < icp_num_blocks P" "length T = icp_N P"
  shows "length (sorted_block (icp_hash P) (icp_fanout P) (block_tuples P T b)) = block_len P b"
proof -
  from assms(1) have "\<forall>t\<in>set (block_tuples P T b). icp_hash P t < icp_fanout P"
    by (simp add: icp_wf_def)
  from count_below_all [OF this] length_block_tuples [OF assms]
  show ?thesis by (simp add: length_sorted_block)
qed

lemma mset_sorted_block_tuples:
  assumes "icp_wf P"
  shows "mset (sorted_block (icp_hash P) (icp_fanout P) (block_tuples P T b)) =
     mset (block_tuples P T b)"
  using assms by (intro mset_sorted_block) (simp add: icp_wf_def)

lemma icp_inv_init:
  assumes "icp_wf P" "length T = icp_N P"
  shows "icp_inv P T 0
     \<lparr>st_i = 0, st_remainder = icp_N P mod icp_num_blocks P, st_block = 0, st_T = T,
      st_TmpBlock = replicate (icp_first_block_size P) (Tuple 0 0),
      st_Directory = DirTmpBlock,
      st_Pos = replicate (icp_num_blocks P)
                 (replicate (icp_num_sub_blocks P) \<lparr>bstart = 0, bend = 0\<rparr>)\<rparr>"
  using assms by (simp add: icp_inv_def)

lemma ICP_partition:
  assumes ok: "setup_ok G sid (length T) radix" and r: "0 < radix"
    and su: "ICP_setup G sid (length T) radix = Inr (G1, P, rem)"
    and E: "first_block_skew G1 tid others sid P T = Inr (G2, False)"
  shows "\<exists>T' Pos'. ICP G tid others sid T radix B0 =
           Inr (G2, T', \<lparr>blocks_N = icp_num_blocks P, Pos = Pos'\<rparr>) \<and>
           icp_layout P T T' \<and> length Pos' = icp_num_blocks P \<and>
           (\<forall>b<icp_num_blocks P. Pos' ! b = expected_positions P T b)"
proof -
  let ?N = "icp_N P" and ?nb = "icp_num_blocks P" and ?F = "icp_first_block_size P"
  from ICP_setup_wf [OF ok] su
  have wf: "icp_wf P" and N: "?N = length T" and rem: "rem = length T mod ?nb"
    by auto
  from wf have nb: "1 \<le> ?nb" by (simp add: icp_wf_def)
  let ?s0 = "\<lparr>st_i = 0, st_remainder = rem, st_block = 0, st_T = T,
      st_TmpBlock = replicate ?F (Tuple 0 0), st_Directory = DirTmpBlock,
      st_Pos = replicate ?nb (replicate (icp_num_sub_blocks P) \<lparr>bstart = 0, bend = 0\<rparr>)\<rparr>"
  have inv0: "icp_inv P T 0 ?s0"
    using icp_inv_init [OF wf N [symmetric]] by (simp add: rem N)
  have E0: "(if sid = IdS \<and> st_block ?s0 = 0 \<and> \<not> Radix_user_defined G1 \<and> \<not> ChangedRadixS G1
          then ICP_estimate_skew G1 tid others
                 (block_histogram (icp_mask P) (icp_shift P) (icp_fanout P) (st_T ?s0)
                    (st_i ?s0) (st_i ?s0 + block_len P 0))
                 ?F
          else Inr (G1, False)) = Inr (G2, False)"
    using E by (auto simp: first_block_skew_def split: if_splits)
  from nb have b0: "0 < ?nb" by simp
  from icp_inv_step [OF wf inv0 b0 N [symmetric] E0] obtain s1
    where s1: "ICP_block sid tid others P G1 ?s0 = Inr (G2, Some s1)" "icp_inv P T (Suc 0) s1"
    by blast
  from icp_loop_inv [OF wf N [symmetric] s1(2), of sid tid others G2] nb obtain s'
    where s': "ICP_loop sid tid others P G2 s1 = Inr (G2, Some s')" "icp_inv P T ?nb s'"
    by auto
  have "0 < ?N" using block_from_less_N [OF wf b0] by simp
  then have loop: "ICP_loop sid tid others P G1 ?s0 = Inr (G2, Some s')"
    using s1(1) s'(1) by (subst ICP_loop.simps) simp
  from s'(2) nb have fin: "st_remainder s' = 0" "st_Directory s' = DirT (?N - ?F)"
    "length (st_T s') = ?N" "length (st_TmpBlock s') = ?F" "length (st_Pos s') = ?nb"
    and tmp: "\<forall>x<?F. st_TmpBlock s' ! x =
        sorted_block (icp_hash P) (icp_fanout P) (block_tuples P T 0) ! x"
    and blocks: "\<forall>b'. 0 < b' \<and> b' < ?nb \<longrightarrow> (\<forall>x<block_len P b'.
        st_T s' ! (block_from P b' - ?F + x) =
          sorted_block (icp_hash P) (icp_fanout P) (block_tuples P T b') ! x)"
    and pos: "\<forall>b'<?nb. st_Pos s' ! b' = expected_positions P T b'"
    using wf by (simp_all add: icp_inv_def block_from_num_blocks [OF wf] icp_wf_def)
  have FN: "?F \<le> ?N" by (rule first_le_N [OF wf])
  define T' where "T' = take (?N - ?F) (st_T s') @ take ?F (st_TmpBlock s') @
      drop (?N - ?F + ?F) (st_T s')"
  have run: "ICP G tid others sid T radix B0 =
      Inr (G2, T', \<lparr>blocks_N = ?nb, Pos = st_Pos s'\<rparr>)"
  proof -
    have d: "length T - (?N - ?F) = ?F" using FN N by simp
    show ?thesis using r by (subst ICP.simps) (simp add: su loop fin d T'_def)
  qed
  have lT': "length T' = length T" using fin FN by (simp add: T'_def N)
  have T'_eq: "T' = take (?N - ?F) (st_T s') @ st_TmpBlock s'"
    using fin FN by (simp add: T'_def)
  have lA: "length (take (?N - ?F) (st_T s')) = ?N - ?F" using fin by simp
  have n1: "T' ! y = st_T s' ! y" if "y < ?N - ?F" for y
    unfolding T'_eq using that lA by (simp add: nth_append)
  have n2: "T' ! (?N - ?F + y) = st_TmpBlock s' ! y" for y
    unfolding T'_eq using nth_append_length_plus [of "take (?N - ?F) (st_T s')" "st_TmpBlock s'" y]
    by (simp only: lA)
  have lay: "\<forall>b<?nb. \<forall>x<block_len P b. T' ! (block_offset P b + x) =
      sorted_block (icp_hash P) (icp_fanout P) (block_tuples P T b) ! x"
  proof (intro allI impI)
    fix b x assume b: "b < ?nb" and x: "x < block_len P b"
    show "T' ! (block_offset P b + x) =
      sorted_block (icp_hash P) (icp_fanout P) (block_tuples P T b) ! x"
    proof (cases "b = 0")
      case True
      with x have xF: "x < ?F" by (simp add: block_len_0 [OF wf])
      have "block_offset P b = ?N - ?F" using True by (simp add: block_offset_def)
      with tmp xF True n2 [of x] show ?thesis by simp
    next
      case False
      then have b1: "1 \<le> b" by simp
      from b have "block_from P (Suc b) \<le> block_from P ?nb" by (intro block_from_mono) simp
      then have "block_from P b + block_len P b \<le> ?N"
        by (simp add: block_from_Suc block_from_num_blocks [OF wf])
      moreover have "?F \<le> block_from P b" by (rule first_le_block_from [OF wf b1])
      ultimately have "block_from P b - ?F + x < ?N - ?F" using x by simp
      from n1 [OF this] blocks b False x show ?thesis
        by (simp add: block_offset_def)
    qed
  qed
  from run lT' lay fin(5) pos show ?thesis
    unfolding icp_layout_def by blast
qed

lemma ICP_block_restart:
  assumes "len = icp_avg_block_size P + (if st_remainder s > 0 then 1 else 0)"
    and "st_i s + len \<le> icp_N P"
    and "st_block s < icp_num_blocks P - 1 \<or> st_i s + len = icp_N P"
    and "(if sid = IdS \<and> st_block s = 0 \<and> \<not> Radix_user_defined G \<and> \<not> ChangedRadixS G
          then ICP_estimate_skew G tid others
                 (block_histogram (icp_mask P) (icp_shift P) (icp_fanout P) (st_T s)
                    (st_i s) (st_i s + len))
                 (icp_first_block_size P)
          else Inr (G, False)) = Inr (G', True)"
  shows "ICP_block sid tid others P G s = Inr (G', None)"
  unfolding ICP_block_def Let_def assms(1) [symmetric]
  using assms(2,3)
  by (simp add: assms(4) ebind_def)

lemma ICP_restart:
  assumes r: "0 < radix"
    and su: "ICP_setup G sid (length T) radix = Inr (G1, P, rem)"
    and wf: "icp_wf P" "icp_N P = length T" "rem = length T mod icp_num_blocks P"
    and E: "first_block_skew G1 tid others sid P T = Inr (G2, True)"
  shows "ICP G tid others sid T radix B0 = Inr (G2, T, \<lparr>blocks_N = icp_num_blocks P, Pos = []\<rparr>)"
    and "Radix_S G2 = 0" and "ChangedRadixS G2" and "\<not> ChangedRadixS G1"
proof -
  from E have est: "ICP_estimate_skew G1 tid others
             (block_histogram (icp_mask P) (icp_shift P) (icp_fanout P) T 0 (block_len P 0))
             (icp_first_block_size P) = Inr (G2, True)"
    and c: "sid = IdS" "\<not> Radix_user_defined G1" "\<not> ChangedRadixS G1"
    by (auto simp: first_block_skew_def split: if_splits)
  from est show G2: "Radix_S G2 = 0" and "ChangedRadixS G2"
    by (auto simp: ICP_estimate_skew_def Let_def skew_switch_def split: if_splits)
  show "\<not> ChangedRadixS G1" by (rule c(3))
  let ?s0 = "\<lparr>st_i = 0, st_remainder = rem, st_block = 0, st_T = T,
      st_TmpBlock = replicate (icp_first_block_size P) (Tuple 0 0), st_Directory = DirTmpBlock,
      st_Pos = replicate (icp_num_blocks P)
         (replicate (icp_num_sub_blocks P) \<lparr>bstart = 0, bend = 0\<rparr>)\<rparr>"
  from wf(1) have b0: "0 < icp_num_blocks P" by (simp add: icp_wf_def)
  have len: "block_len P 0 = icp_avg_block_size P + (if st_remainder ?s0 > 0 then 1 else 0)"
    by (simp add: block_len_def wf)
  have e: "block_from P 0 + block_len P 0 \<le> icp_N P" by (rule block_end_le_N [OF wf(1) b0])
  have a2: "0 < icp_num_blocks P - 1 \<or> block_len P 0 = icp_N P"
  proof (cases "icp_num_blocks P = 1")
    case True
    then have "block_from P (Suc 0) = icp_N P" using block_from_num_blocks [OF wf(1)] by simp
    then show ?thesis by (simp add: block_from_Suc)
  next
    case False
    with b0 show ?thesis by simp
  qed
  have blk: "ICP_block sid tid others P G1 ?s0 = Inr (G2, None)"
  proof (rule ICP_block_restart [OF len])
    show "st_i ?s0 + block_len P 0 \<le> icp_N P" using e by simp
    show "st_block ?s0 < icp_num_blocks P - 1 \<or> st_i ?s0 + block_len P 0 = icp_N P"
      using a2 by simp
    show "(if sid = IdS \<and> st_block ?s0 = 0 \<and> \<not> Radix_user_defined G1 \<and> \<not> ChangedRadixS G1
          then ICP_estimate_skew G1 tid others
                 (block_histogram (icp_mask P) (icp_shift P) (icp_fanout P) (st_T ?s0)
                    (st_i ?s0) (st_i ?s0 + block_len P 0))
                 (icp_first_block_size P)
          else Inr (G1, False)) = Inr (G2, True)"
      using c est by simp
  qed
  have "0 < icp_N P" using block_from_less_N [OF wf(1) b0] by simp
  then have loop: "ICP_loop sid tid others P G1 ?s0 = Inr (G2, None)"
    using blk by (subst ICP_loop.simps) simp
  have "ICP G tid others sid T radix B0 =
      ICP G2 tid others sid T (Radix_S G2) \<lparr>blocks_N = icp_num_blocks P, Pos = []\<rparr>"
    using r by (subst ICP.simps) (simp add: su loop)
  also have "\<dots> = Inr (G2, T, \<lparr>blocks_N = icp_num_blocks P, Pos = []\<rparr>)"
    unfolding G2 by (subst ICP.simps) simp
  finally show "ICP G tid others sid T radix B0 =
       Inr (G2, T, \<lparr>blocks_N = icp_num_blocks P, Pos = []\<rparr>)" .
qed


lemma first_block_skew_total:
  assumes "RelR_size G \<noteq> 0"
  shows "\<exists>G2 r. first_block_skew G tid others sid P T = Inr (G2, r)"
  using assms by (auto simp: first_block_skew_def ICP_estimate_skew_def Let_def)

lemma block_offset_end:
  assumes "icp_wf P" "b < icp_num_blocks P"
  shows "block_offset P b + block_len P b \<le> icp_N P"
proof (cases "b = 0")
  case True
  then show ?thesis using first_le_N [OF assms(1)] by (simp add: block_offset_def block_len_0 [OF assms(1)])
next
  case False
  then have "icp_first_block_size P \<le> block_from P b"
    by (intro first_le_block_from [OF assms(1)]) simp
  with block_end_le_N [OF assms] False show ?thesis by (simp add: block_offset_def)
qed

lemma layout_block_slice:
  assumes wf: "icp_wf P" and N: "length T = icp_N P" and lay: "icp_layout P T T'"
    and b: "b < icp_num_blocks P"
  shows "take (block_len P b) (drop (block_offset P b) T') =
     sorted_block (icp_hash P) (icp_fanout P) (block_tuples P T b)"
proof (rule nth_equalityI)
  from lay have l: "length T' = icp_N P" by (simp add: icp_layout_def N)
  show "length (take (block_len P b) (drop (block_offset P b) T')) =
      length (sorted_block (icp_hash P) (icp_fanout P) (block_tuples P T b))"
    using block_offset_end [OF wf b] l length_sorted_block_tuples [OF wf b N] by simp
  fix x assume "x < length (take (block_len P b) (drop (block_offset P b) T'))"
  then have x: "x < block_len P b" by simp
  with lay b have "T' ! (block_offset P b + x) =
      sorted_block (icp_hash P) (icp_fanout P) (block_tuples P T b) ! x"
    by (simp add: icp_layout_def)
  with x block_offset_end [OF wf b] l
  show "take (block_len P b) (drop (block_offset P b) T') ! x =
      sorted_block (icp_hash P) (icp_fanout P) (block_tuples P T b) ! x"
    by simp
qed

lemma layout_partition_slice:
  assumes wf: "icp_wf P" and N: "length T = icp_N P" and lay: "icp_layout P T T'"
    and b: "b < icp_num_blocks P" and p: "p < icp_fanout P"
  shows "take (count_eq (icp_hash P) (block_tuples P T b) p)
           (drop (block_offset P b + count_below (icp_hash P) (block_tuples P T b) p) T') =
         filter (\<lambda>t. icp_hash P t = p) (block_tuples P T b)"
proof (rule nth_equalityI)
  let ?hf = "icp_hash P" and ?blk = "block_tuples P T b"
  from lay have l: "length T' = icp_N P" by (simp add: icp_layout_def N)
  have "count_below ?hf ?blk (Suc p) \<le> count_below ?hf ?blk (icp_fanout P)"
    using p by (intro count_below_mono) simp
  also have "\<dots> = block_len P b"
    using length_sorted_block_tuples [OF wf b N] by (simp add: length_sorted_block)
  finally have le: "count_below ?hf ?blk p + count_eq ?hf ?blk p \<le> block_len P b"
    by (simp add: count_below_Suc)
  with block_offset_end [OF wf b] l
  show "length (take (count_eq ?hf ?blk p) (drop (block_offset P b + count_below ?hf ?blk p) T')) =
      length (filter (\<lambda>t. ?hf t = p) ?blk)"
    by (simp add: count_eq_def)
  fix c assume "c < length (take (count_eq ?hf ?blk p)
      (drop (block_offset P b + count_below ?hf ?blk p) T'))"
  then have c: "c < count_eq ?hf ?blk p" by simp
  with le have x: "count_below ?hf ?blk p + c < block_len P b" by simp
  with lay b have "T' ! (block_offset P b + (count_below ?hf ?blk p + c)) =
      sorted_block ?hf (icp_fanout P) ?blk ! (count_below ?hf ?blk p + c)"
    by (simp add: icp_layout_def)
  also have "\<dots> = filter (\<lambda>t. ?hf t = p) ?blk ! c"
    by (rule sorted_block_nth [OF p c])
  finally show "take (count_eq ?hf ?blk p)
      (drop (block_offset P b + count_below ?hf ?blk p) T') ! c = filter (\<lambda>t. ?hf t = p) ?blk ! c"
    using c le block_offset_end [OF wf b] l by (simp add: add.assoc)
qed

lemma layout_mset:
  assumes wf: "icp_wf P" and N: "length T = icp_N P" and lay: "icp_layout P T T'"
  shows "mset T' = mset T"
proof -
  let ?F = "icp_first_block_size P" and ?N = "icp_N P" and ?nb = "icp_num_blocks P"
  from lay have l: "length T' = ?N" by (simp add: icp_layout_def N)
  from wf have nb: "0 < ?nb" by (simp add: icp_wf_def)
  have FN: "?F \<le> ?N" by (rule first_le_N [OF wf])
  have blk0: "block_tuples P T 0 = take ?F T"
    by (simp add: block_tuples_def block_len_0 [OF wf])
  have "drop (?N - ?F) T' = take (block_len P 0) (drop (block_offset P 0) T')"
    using l FN by (simp add: block_offset_def block_len_0 [OF wf])
  also have "\<dots> = sorted_block (icp_hash P) (icp_fanout P) (block_tuples P T 0)"
    by (rule layout_block_slice [OF wf N lay nb])
  finally have "mset (drop (?N - ?F) T') =
      mset (sorted_block (icp_hash P) (icp_fanout P) (block_tuples P T 0))" by simp
  also have "\<dots> = mset (block_tuples P T 0)" by (rule mset_sorted_block_tuples [OF wf])
  finally have last: "mset (drop (?N - ?F) T') = mset (take ?F T)" by (simp only: blk0)
  have step: "mset (take (block_from P b - ?F) T') + mset (take ?F T) =
      mset (take (block_from P b) T)" if "1 \<le> b" "b \<le> ?nb" for b
    using that
  proof (induction b rule: nat_induct_at_least)
    case base
    show ?case by (simp add: block_from_1 [OF wf])
  next
    case (Suc b)
    then have b: "b < ?nb" and b1: "1 \<le> b" by simp_all
    have Fb: "?F \<le> block_from P b" by (rule first_le_block_from [OF wf b1])
    with b1 have off: "block_offset P b = block_from P b - ?F" by (simp add: block_offset_def)
    have "take (block_from P (Suc b) - ?F) T' =
        take ((block_from P b - ?F) + block_len P b) T'"
      using Fb by (simp add: block_from_Suc)
    also have "\<dots> = take (block_from P b - ?F) T' @
        take (block_len P b) (drop (block_from P b - ?F) T')"
      by (rule take_add)
    also have "take (block_len P b) (drop (block_from P b - ?F) T') =
        sorted_block (icp_hash P) (icp_fanout P) (block_tuples P T b)"
      using layout_block_slice [OF wf N lay b] by (simp add: off)
    finally have "mset (take (block_from P (Suc b) - ?F) T') =
        mset (take (block_from P b - ?F) T') + mset (block_tuples P T b)"
      by (simp add: mset_sorted_block_tuples [OF wf])
    moreover have "take (block_from P (Suc b)) T =
        take (block_from P b) T @ block_tuples P T b"
      by (simp add: block_from_Suc take_add block_tuples_def)
    ultimately show ?case using Suc.IH b by simp
  qed
  from step [of ?nb] nb have "mset (take (?N - ?F) T') + mset (take ?F T) = mset T"
    by (simp add: block_from_num_blocks [OF wf] N)
  moreover have "mset T' = mset (take (?N - ?F) T') + mset (drop (?N - ?F) T')"
    by (metis append_take_drop_id mset_append)
  ultimately show ?thesis using last by simp
qed


lemma histogram_prefix_sums:
  assumes wf: "icp_wf P" and N: "length T = icp_N P" and b: "b < icp_num_blocks P"
    and p: "p \<le> icp_fanout P"
  shows "sum_list (take p (block_histogram (icp_mask P) (icp_shift P) (icp_fanout P) T
            (block_from P b) (block_from P b + block_len P b))) =
         count_below (icp_hash P) (block_tuples P T b) p"
proof -
  let ?H = "block_histogram (icp_mask P) (icp_shift P) (icp_fanout P) T
            (block_from P b) (block_from P b + block_len P b)"
  from block_end_le_N [OF wf b] N
  have e: "block_from P b + block_len P b \<le> length T" by simp
  from block_histogram_eq [where lo = "block_from P b" and hi = "block_from P b + block_len P b"
      and T = T and msk = "icp_mask P" and shift = "icp_shift P" and n = "icp_fanout P"] e
  have H: "length ?H = icp_fanout P"
    "\<forall>q<length ?H. ?H ! q = count_eq (icp_hash P) (block_tuples P T b) q"
    by (simp_all add: hashf_icp_hash block_tuples_def)
  from sum_take_count [OF H(2)] p H(1) show ?thesis by simp
qed

section \<open>C5: the model dispatch\<close>

text \<open>
  C5 (counterexample): with \<open>R_bits = 2\<close> and \<open>S_bits = 1\<close>, a pair with \<open>r > s > 0\<close>,
  the dispatch does not run Model IV; it reaches \<open>assert(false)\<close>.
\<close>

theorem C5_dispatch_counterexample:
  "join_thread_dispatch 2 1 = Inl AssertionFailed \<and> join_thread_dispatch 2 1 \<noteq> Inr Call_ColBP_IV"
  by (simp add: join_thread_dispatch_def)

text \<open>
  C5 (amended): \<open>(0,0)\<close> runs Model I, \<open>(r,r)\<close> with \<open>r > 0\<close> runs Model II, \<open>(r,0)\<close> with
  \<open>r > 0\<close> runs Model III, and exactly these pairs run a model; every pair with
  \<open>s > 0\<close> and \<open>r \<noteq> s\<close>, the pairs \<open>r > s > 0\<close> included, is an assertion failure, and
  Model IV is never run.
\<close>

theorem C5_dispatch:
  "(join_thread_dispatch r s = Inr Call_ColBP_I \<longleftrightarrow> r = 0 \<and> s = 0) \<and>
   (join_thread_dispatch r s = Inr Call_ColBP_II \<longleftrightarrow> r = s \<and> 0 < r) \<and>
   (join_thread_dispatch r s = Inr Call_ColBP_III \<longleftrightarrow> 0 < r \<and> s = 0) \<and>
   join_thread_dispatch r s \<noteq> Inr Call_ColBP_IV \<and>
   (join_thread_dispatch r s = Inl AssertionFailed \<longleftrightarrow> 0 < s \<and> r \<noteq> s)"
  by (auto simp: join_thread_dispatch_def)

section \<open>Keys\<close>

lemma primary_key_facts:
  assumes "primary_key R"
  shows "distinct (map key R)"
    and "\<forall>t\<in>set R. 1 \<le> unat (key t) \<and> unat (key t) \<le> length R"
    and "\<forall>k. 1 \<le> k \<and> k \<le> length R \<longrightarrow> (\<exists>t\<in>set R. unat (key t) = k)"
proof -
  let ?ks = "map (\<lambda>t. unat (key t)) R"
  from assms have m: "mset ?ks = mset [1..<length R + 1]" by (simp add: primary_key_def)
  then have "distinct ?ks" using mset_eq_imp_distinct_iff [OF m] by simp
  moreover have "?ks = map unat (map key R)" by simp
  ultimately have "distinct (map unat (map key R))" by simp
  then show "distinct (map key R)" by (simp only: distinct_map)
  from m have "set ?ks = set [1..<length R + 1]" by (rule mset_eq_setD)
  then have s: "(\<lambda>t. unat (key t)) ` set R = {1..<length R + 1}"
    by (simp only: set_map set_upt)
  show "\<forall>t\<in>set R. 1 \<le> unat (key t) \<and> unat (key t) \<le> length R"
  proof
    fix t assume "t \<in> set R"
    then have "unat (key t) \<in> {1..<length R + 1}" using s by blast
    then show "1 \<le> unat (key t) \<and> unat (key t) \<le> length R" by simp
  qed
  show "\<forall>k. 1 \<le> k \<and> k \<le> length R \<longrightarrow> (\<exists>t\<in>set R. unat (key t) = k)"
  proof (intro allI impI)
    fix k assume "1 \<le> k \<and> k \<le> length R"
    then have "k \<in> (\<lambda>t. unat (key t)) ` set R" using s by simp
    then show "\<exists>t\<in>set R. unat (key t) = k" by auto
  qed
qed

lemma foreign_key_in_R:
  assumes "primary_key R" "foreign_key S (length R)" "s \<in> set S"
  shows "\<exists>t\<in>set R. key t = key s"
proof -
  from assms(2,3) have "1 \<le> unat (key s) \<and> unat (key s) \<le> length R"
    by (simp add: foreign_key_def)
  with primary_key_facts(3) [OF assms(1)] obtain t where "t \<in> set R" "unat (key t) = unat (key s)"
    by blast
  then show ?thesis by (auto simp: word_unat_eq_iff)
qed

lemma built_value_eq:
  assumes "distinct (map key R)" "t \<in> set R"
  shows "built_value test_key R (key t) = (if test_key then key t else payload t)"
proof -
  have "find (\<lambda>u. key u = key t) R = Some t"
    using assms
  proof (induction R)
    case Nil
    then show ?case by simp
  next
    case (Cons a R)
    then show ?case by (cases "a = t") (auto simp: image_iff)
  qed
  then show ?thesis by (simp add: built_value_def)
qed

section \<open>Model I\<close>

lemma ColBP_I_build_snoc:
  "ColBP_I_build test_key (R @ [t]) X =
     (case ColBP_I_build test_key R X of (HTable, checksum) \<Rightarrow>
        (HTable[unat (key t) := (if test_key then key t else payload t)],
         checksum + ucast (key t)))"
  by (simp add: ColBP_I_build_def ColBP_I_index_def case_prod_unfold Let_def)

lemma ColBP_I_build_result:
  assumes "distinct (map key R)" "\<forall>t\<in>set R. unat (key t) < length HTable"
  shows "case ColBP_I_build test_key R (HTable, c) of (HTable', c') \<Rightarrow>
           length HTable' = length HTable \<and> c' = c + key_sum R \<and>
           (\<forall>t\<in>set R. HTable' ! unat (key t) = (if test_key then key t else payload t)) \<and>
           (\<forall>j. j \<notin> (\<lambda>t. unat (key t)) ` set R \<longrightarrow> HTable' ! j = HTable ! j)"
  using assms
proof (induction R rule: rev_induct)
  case Nil
  show ?case by (simp add: ColBP_I_build_def key_sum_def)
next
  case (snoc t R)
  obtain H1 c1 where b: "ColBP_I_build test_key R (HTable, c) = (H1, c1)"
    by (cases "ColBP_I_build test_key R (HTable, c)")
  from snoc.prems have d: "distinct (map key R)" and nt: "key t \<notin> key ` set R"
    and bd: "\<forall>u\<in>set R. unat (key u) < length HTable" and bt: "unat (key t) < length HTable"
    by simp_all
  from snoc.IH [OF d bd] b have l: "length H1 = length HTable" and c1: "c1 = c + key_sum R"
    and v: "\<forall>u\<in>set R. H1 ! unat (key u) = (if test_key then key u else payload u)"
    and o: "\<forall>j. j \<notin> (\<lambda>t. unat (key t)) ` set R \<longrightarrow> H1 ! j = HTable ! j"
    by simp_all
  have ne: "unat (key u) \<noteq> unat (key t)" if "u \<in> set R" for u
  proof
    assume "unat (key u) = unat (key t)"
    then have "key u = key t" by (simp add: word_unat_eq_iff)
    moreover from that have "key u \<in> key ` set R" by (rule imageI)
    ultimately show False using nt by simp
  qed
  have 1: "\<forall>u\<in>set (R @ [t]).
      H1[unat (key t) := (if test_key then key t else payload t)] ! unat (key u) =
        (if test_key then key u else payload u)"
  proof
    fix u assume "u \<in> set (R @ [t])"
    then consider "u = t" | "u \<in> set R" "u \<noteq> t" by auto
    then show "H1[unat (key t) := (if test_key then key t else payload t)] ! unat (key u) =
        (if test_key then key u else payload u)"
    proof cases
      case 1
      then show ?thesis using bt l by simp
    next
      case 2
      with ne [of u] v show ?thesis by simp
    qed
  qed
  have 2: "\<forall>j. j \<notin> (\<lambda>t. unat (key t)) ` set (R @ [t]) \<longrightarrow>
      H1[unat (key t) := (if test_key then key t else payload t)] ! j = HTable ! j"
    using o by auto
  from 1 2 l c1 show ?case
    unfolding ColBP_I_build_snoc b by (simp add: key_sum_def add.assoc)
qed

lemma ColBP_I_probe_result:
  assumes "\<forall>s\<in>set S. HTable ! unat (key s) = built_value test_key R (key s)"
    and "test_key \<longrightarrow> (\<forall>s\<in>set S. built_value test_key R (key s) = key s)"
  shows "ColBP_I_probe test_key HTable S (m, c) =
     (m + of_nat (length S), c + probe_sum test_key R S)"
  using assms
proof (induction S arbitrary: m c)
  case Nil
  show ?case by (simp add: ColBP_I_probe_def probe_sum_def)
next
  case (Cons s S)
  have "ColBP_I_probe test_key HTable (s # S) (m, c) =
      ColBP_I_probe test_key HTable S (m + 1, c + ucast (built_value test_key R (key s)))"
    using Cons.prems by (auto simp: ColBP_I_probe_def ColBP_I_index_def Let_def)
  also have "\<dots> = (m + 1 + of_nat (length S),
      c + ucast (built_value test_key R (key s)) + probe_sum test_key R S)"
    using Cons.prems by (intro Cons.IH) simp_all
  finally show ?case by (simp add: probe_sum_def add.assoc)
qed


lemma ColBP_I_build_append:
  "ColBP_I_build test_key (R1 @ R2) X = ColBP_I_build test_key R2 (ColBP_I_build test_key R1 X)"
  by (simp add: ColBP_I_build_def)

lemma ColBP_I_build_fst:
  "fst (ColBP_I_build test_key R (HTable, c)) = fst (ColBP_I_build test_key R (HTable, 0))"
proof (induction R rule: rev_induct)
  case Nil
  show ?case by (simp add: ColBP_I_build_def)
next
  case (snoc t R)
  then show ?case by (simp add: ColBP_I_build_snoc case_prod_unfold)
qed

lemma ColBP_I_build_snd:
  "snd (ColBP_I_build test_key R (HTable, c)) = c + key_sum R"
proof (induction R rule: rev_induct)
  case Nil
  show ?case by (simp add: ColBP_I_build_def key_sum_def)
next
  case (snoc t R)
  then show ?case by (simp add: ColBP_I_build_snoc case_prod_unfold key_sum_def add.assoc)
qed

lemma ColBP_I_build_phase_fold:
  "fold (\<lambda>T (HTable, acc).
       case ColBP_I_build test_key (T_SubR T) (HTable, 0) of
         (HTable', checksum) \<Rightarrow> (HTable', acc @ [T\<lparr>T_checksum := checksum\<rparr>])) Ts (HTable, acc) =
     (fst (ColBP_I_build test_key (concat (map T_SubR Ts)) (HTable, 0)),
      acc @ map (\<lambda>T. T\<lparr>T_checksum := key_sum (T_SubR T)\<rparr>) Ts)"
proof (induction Ts arbitrary: HTable acc)
  case Nil
  show ?case by (simp add: ColBP_I_build_def)
next
  case (Cons T Ts)
  obtain H1 c1 where b: "ColBP_I_build test_key (T_SubR T) (HTable, 0) = (H1, c1)"
    by (cases "ColBP_I_build test_key (T_SubR T) (HTable, 0)")
  have c1: "c1 = key_sum (T_SubR T)"
    using ColBP_I_build_snd [of test_key "T_SubR T" HTable 0] b by simp
  have "fst (ColBP_I_build test_key (concat (map T_SubR (T # Ts))) (HTable, 0)) =
      fst (ColBP_I_build test_key (concat (map T_SubR Ts)) (H1, c1))"
    by (simp add: ColBP_I_build_append b)
  also have "\<dots> = fst (ColBP_I_build test_key (concat (map T_SubR Ts)) (H1, 0))"
    by (rule ColBP_I_build_fst)
  finally show ?case by (simp add: b Cons.IH c1)
qed

lemma ColBP_I_build_phase_eq:
  "ColBP_I_build_phase test_key Ts HTable =
     (fst (ColBP_I_build test_key (RelR Ts) (HTable, 0)),
      map (\<lambda>T. T\<lparr>T_checksum := key_sum (T_SubR T)\<rparr>) Ts)"
  unfolding ColBP_I_build_phase_def RelR_def
  using ColBP_I_build_phase_fold [of test_key Ts HTable "[]"] by simp

lemma length_memset_zero:
  "offset + share \<le> length Table \<Longrightarrow> length (memset_zero Table offset share) = length Table"
  by (simp add: memset_zero_def)

lemma nth_memset_zero:
  "offset + share \<le> length Table \<Longrightarrow> j < length Table \<Longrightarrow>
     memset_zero Table offset share ! j =
       (if offset \<le> j \<and> j < offset + share then 0 else Table ! j)"
  by (auto simp: memset_zero_def nth_append)

lemma ColBP_I_zero_fold:
  assumes "k \<le> N" "0 < N"
  shows "length (fold (ColBP_I_zero N) [0..<k] HTable) = length HTable \<and>
     (\<forall>j<length HTable. fold (ColBP_I_zero N) [0..<k] HTable ! j =
        (if j < k * (length HTable div N) then 0 else HTable ! j))"
  using assms(1)
proof (induction k)
  case 0
  show ?case by simp
next
  case (Suc k)
  let ?H = "fold (ColBP_I_zero N) [0..<k] HTable"
  let ?share = "length HTable div N"
  from Suc have l: "length ?H = length HTable"
    and v: "\<forall>j<length HTable. ?H ! j = (if j < k * ?share then 0 else HTable ! j)"
    by simp_all
  have "Suc k * ?share \<le> N * ?share" using Suc.prems by (intro mult_le_mono1)
  also have "\<dots> \<le> length HTable" by simp
  finally have b: "k * ?share + ?share \<le> length ?H" using l by simp
  have f: "fold (ColBP_I_zero N) [0..<Suc k] HTable = memset_zero ?H (k * ?share) ?share"
    by (simp add: ColBP_I_zero_def l Let_def)
  show ?case
    unfolding f using length_memset_zero [OF b] nth_memset_zero [OF b] l v by auto
qed

lemma ColBP_I_zero_phase_eq:
  assumes "workers_ok G Ts"
  shows "ColBP_I_zero_phase (Threads_N G) Ts HTable =
     fold (ColBP_I_zero (length Ts)) [0..<length Ts] HTable"
proof -
  from assms have "map T_tid Ts = [0..<length Ts]" by (simp add: workers_ok_def)
  moreover have "fold (\<lambda>T. ColBP_I_zero N (T_tid T)) Ts HTable =
      fold (ColBP_I_zero N) (map T_tid Ts) HTable" for N
    by (simp add: fold_map comp_def)
  ultimately show ?thesis using assms by (simp add: ColBP_I_zero_phase_def workers_ok_def)
qed

lemma ColBP_I_zero_phase_result:
  assumes "workers_ok G Ts"
  shows "length (ColBP_I_zero_phase (Threads_N G) Ts HTable) = length HTable"
    and "j < length HTable \<Longrightarrow> ColBP_I_zero_phase (Threads_N G) Ts HTable ! j =
        (if j < length Ts * (length HTable div length Ts) then 0 else HTable ! j)"
proof -
  from assms have N: "0 < length Ts" by (simp add: workers_ok_def)
  note z = ColBP_I_zero_fold [of "length Ts" "length Ts" HTable, OF le_refl N]
  from z show "length (ColBP_I_zero_phase (Threads_N G) Ts HTable) = length HTable"
    by (simp add: ColBP_I_zero_phase_eq [OF assms])
  from z show "j < length HTable \<Longrightarrow> ColBP_I_zero_phase (Threads_N G) Ts HTable ! j =
        (if j < length Ts * (length HTable div length Ts) then 0 else HTable ! j)"
    by (simp add: ColBP_I_zero_phase_eq [OF assms])
qed

lemma fold_sum_list:
  "fold (\<lambda>T total. total + f T) Ts (a :: 64 word) = a + sum_list (map f Ts)"
  by (induction Ts arbitrary: a) (simp_all add: add.assoc)

lemma key_sum_concat: "key_sum (concat Rs) = sum_list (map key_sum Rs)"
  by (induction Rs) (simp_all add: key_sum_def)

lemma probe_sum_concat:
  "probe_sum test_key R (concat Ss) = sum_list (map (probe_sum test_key R) Ss)"
  by (induction Ss) (simp_all add: probe_sum_def)

lemma total_matches_worker_result:
  "total_matches (map (worker_result test_key R) Ts) = of_nat (length (RelS Ts))"
proof -
  have "sum_list (map (\<lambda>T. (of_nat (length (T_SubS T)) :: 64 word)) Ts) =
      of_nat (length (concat (map T_SubS Ts)))"
    by (induction Ts) simp_all
  then show ?thesis
    by (simp add: total_matches_def fold_sum_list worker_result_def comp_def RelS_def)
qed

lemma global_checksum_worker_result:
  "global_checksum (map (worker_result test_key R) Ts) =
     key_sum (RelR Ts) + probe_sum test_key R (RelS Ts)"
  by (simp add: global_checksum_def fold_sum_list worker_result_def comp_def RelS_def RelR_def
      key_sum_concat probe_sum_concat sum_list_addf)

lemma ColBP_I_result:
  assumes w: "workers_ok G Ts"
    and r: "Radix_R G = 0" "Radix_S G = 0"
    and n: "RelR_size G = length (RelR Ts)" "RelR_size G < 2 ^ 32 - 1"
    and pk: "primary_key (RelR Ts)"
    and fk: "foreign_key (RelS Ts) (length (RelR Ts))"
  shows "ColBP_I test_key G garbage Ts = Inr (map (worker_result test_key (RelR Ts)) Ts)"
proof -
  let ?R = "RelR Ts"
  let ?H0 = "SafeMalloc_buckets garbage (ColBP_I_HTable_size (RelR_size G))"
  let ?H1 = "ColBP_I_zero_phase (Threads_N G) Ts ?H0"
  let ?H2 = "fst (ColBP_I_build test_key ?R (?H1, 0))"
  from n have sz: "ColBP_I_HTable_size (RelR_size G) = length ?R + 1"
    by (simp add: ColBP_I_HTable_size_def)
  have l0: "length ?H0 = length ?R + 1" by (simp add: SafeMalloc_buckets_def sz)
  have l1: "length ?H1 = length ?R + 1"
    using ColBP_I_zero_phase_result(1) [OF w, of ?H0] l0 by simp
  note pkf = primary_key_facts [OF pk]
  have bd: "\<forall>t\<in>set ?R. unat (key t) < length ?H1" using pkf(2) l1 by auto
  have H2: "\<forall>t\<in>set ?R. ?H2 ! unat (key t) = (if test_key then key t else payload t)"
    using ColBP_I_build_result [OF pkf(1) bd, where test_key = test_key and c = 0]
    by (simp add: case_prod_unfold)
  have rd: "?H2 ! unat (key s) = built_value test_key ?R (key s)" if "s \<in> set (RelS Ts)" for s
  proof -
    from foreign_key_in_R [OF pk fk that] obtain t where t: "t \<in> set ?R" "key t = key s"
      by blast
    from H2 t(1) have "?H2 ! unat (key t) = built_value test_key ?R (key t)"
      by (simp add: built_value_eq [OF pkf(1) t(1)])
    then show ?thesis by (simp add: t(2))
  qed
  have tk: "built_value test_key ?R (key s) = key s" if "test_key" for s
    using that by (simp add: built_value_def)
  have pr: "ColBP_I_probe test_key ?H2 (T_SubS T) (0, c) =
      (of_nat (length (T_SubS T)), c + probe_sum test_key ?R (T_SubS T))" if "T \<in> set Ts" for T c
  proof -
    from that have "set (T_SubS T) \<subseteq> set (RelS Ts)" by (auto simp: RelS_def)
    then have "\<forall>s\<in>set (T_SubS T). ?H2 ! unat (key s) = built_value test_key ?R (key s)"
      using rd by blast
    moreover have "test_key \<longrightarrow> (\<forall>s\<in>set (T_SubS T). built_value test_key ?R (key s) = key s)"
      using tk by simp
    ultimately show ?thesis
      using ColBP_I_probe_result [where S = "T_SubS T" and HTable = ?H2 and test_key = test_key and R = ?R and m = 0 and c = c] by simp
  qed
  have "ColBP_I_probe_phase test_key ?H2 (map (\<lambda>T. T\<lparr>T_checksum := key_sum (T_SubR T)\<rparr>) Ts) =
      map (worker_result test_key ?R) Ts"
    unfolding ColBP_I_probe_phase_def map_map
    by (rule map_cong [OF refl]) (simp add: pr worker_result_def)
  then show ?thesis
    using r by (simp add: ColBP_I_def Let_def ColBP_I_build_phase_eq)
qed

section \<open>Scanning a sub-block\<close>




section \<open>A worker's scan of one partition\<close>





lemma length_cursor_pos [simp]: "length (cursor_pos P T0 prog) = icp_num_blocks P"
  by (simp add: cursor_pos_def)







section \<open>The schedule of the build and probe steps\<close>








lemma partitions_done_0 [simp]: "partitions_done n sbp 0 {} = {}"
  by (simp add: partitions_done_def)








section \<open>Tables and workers\<close>






lemma written_length:
  assumes "written index test_key H0 X H"
  shows "length H = length H0"
proof -
  have "length (fold (table_write index test_key) W H0) = length H0" for W
    by (induction W rule: rev_induct) (simp_all add: table_write_def)
  with assms show ?thesis by (auto simp: written_def)
qed





section \<open>C6: hash table sizes\<close>

text \<open>
  C6 (counterexample): for \<open>|R| = 16\<close> and \<open>R_bits = 2\<close> the stated size is
  \<open>next_pow2(ceil(16 / 4)) = 4\<close>, but Model II allocates \<open>1 << lg_ceil((16 >> 2) + 1) = 8\<close>
  buckets (the key 16 uses bucket \<open>16 >> 2 = 4\<close>, which a table of 4 buckets does not have).
\<close>

theorem C6_table_sizes_counterexample:
  "spec_next_pow2 (spec_ceil_div 16 (2 ^ 2)) = 4 \<and> ColBP_II_HTable_size 16 2 = Inr 8 \<and>
   ColBP_II_index 2 16 = 4"
proof -
  have "spec_next_pow2 (spec_ceil_div 16 (2 ^ 2)) = 4"
    by code_simp
  moreover have "ColBP_II_HTable_size 16 2 = Inr 8"
    by (simp add: ColBP_II_HTable_size_def lg_ceil_def lg_floor_def ebind_def
        lg_floor_loop.simps)
  moreover have "ColBP_II_index 2 16 = 4"
    by (simp add: ColBP_II_index_def drop_bit_eq_div)
  ultimately show ?thesis by simp
qed

text \<open>
  C6 (amended): for \<open>0 < R_bits < 32\<close> and \<open>|R| < 2 ^ 32 - 1\<close> (so that the shifts are
  defined and \<open>|R| + 1\<close> does not wrap), each hash table of Model II has exactly
  \<open>next_pow2(floor(|R| / 2 ^ R_bits) + 1)\<close> buckets and is indexed by \<open>key >> R_bits\<close>, which
  is below that size for every key up to \<open>|R|\<close>; Models I and III allocate a single table
  of exactly \<open>|R| + 1\<close> buckets indexed directly by the key.
\<close>

theorem C6_table_sizes:
  assumes "0 < r" and "r < 32" and "R < 2 ^ 32 - 1"
  shows "ColBP_II_HTable_size R r = Inr (spec_next_pow2 (R div 2 ^ r + 1)) \<and>
         ColBP_I_HTable_size R = R + 1 \<and> ColBP_III_HTable_size R = R + 1 \<and>
         (\<forall>k. unat k \<le> R \<longrightarrow>
            ColBP_II_index r k = unat k div 2 ^ r \<and>
            ColBP_II_index r k < spec_next_pow2 (R div 2 ^ r + 1) \<and>
            ColBP_I_index k = unat k \<and> ColBP_I_index k < ColBP_I_HTable_size R)"
proof -
  from assms(3) have R: "R < 2 ^ 32" by simp
  from assms(2) have rm: "r mod 32 = r" by simp
  have I: "ColBP_I_HTable_size R = R + 1" "ColBP_III_HTable_size R = R + 1"
    using assms(3) by (simp_all add: ColBP_I_HTable_size_def ColBP_III_HTable_size_def)
  have eq: "ColBP_II_index r k = unat k div 2 ^ r" for k
  proof -
    have "ColBP_II_index r k = drop_bit r (unat k)"
      unfolding ColBP_II_index_def rm by (rule unat_drop_bit_eq)
    also have "\<dots> = unat k div 2 ^ r" by (rule drop_bit_eq_div)
    finally show ?thesis .
  qed
  have idx: "ColBP_II_index r k < spec_next_pow2 (R div 2 ^ r + 1)" if "unat k \<le> R" for k
  proof -
    have "ColBP_II_index r k = unat k div 2 ^ r" by (rule eq)
    also have "\<dots> \<le> R div 2 ^ r" using that by (rule div_le_mono)
    also have "\<dots> < R div 2 ^ r + 1" by simp
    also have "\<dots> \<le> spec_next_pow2 (R div 2 ^ r + 1)" by (rule spec_next_pow2_ge)
    finally show ?thesis .
  qed
  show ?thesis
    using ColBP_II_HTable_size_eq [OF assms(1) R assms(2)] I idx eq
    by (simp add: ColBP_I_index_def)
qed

theorem C6_table_sizes_witness:
  "ColBP_II_HTable_size 20 2 = Inr 8 \<and> ColBP_I_HTable_size 20 = 21 \<and>
   ColBP_III_HTable_size 20 = 21 \<and> ColBP_II_index 2 20 = 5 \<and> ColBP_I_index 20 = 20"
proof -
  have s: "spec_next_pow2 (20 div 2 ^ 2 + 1) = 8" by code_simp
  have "(0::nat) < 2" "(2::nat) < 32" "(20::nat) < 2 ^ 32 - 1" by simp_all
  from C6_table_sizes [OF this] show ?thesis
    unfolding s by simp
qed

section \<open>The build steps of Model III\<close>







lemma build_workers_cong:
  assumes "\<And>w. w < length Tz \<Longrightarrow> D w = D' w"
  shows "build_workers G PR R0 Tz i D = build_workers G PR R0 Tz i D'"
  unfolding build_workers_def using assms by (intro map_cong refl) simp












section \<open>The build and probe steps of Model II\<close>














lemma length_probe_workers [simp]:
  "length (probe_workers G test_key R PS S0 Tz i D) = length Tz"
  by (simp add: probe_workers_def)












section \<open>The partitioning phases of the join\<close>














section \<open>The join as a whole\<close>










lemma ICP_shift_defined:
  assumes "Radix_S G = 0" and "2 ^ Radix_R G < RelR_size G" and "RelR_size G < 2 ^ 32"
  shows "\<exists>sh l. ICP_shift G IdR = Inr (sh, G\<lparr>ModelIII_shift := sh\<rparr>) \<and>
     lg_ceil (RelR_size G) = Inr l \<and> sh + Radix_R G + 1 = l \<and> sh < 32"
proof -
  from assms(2) have "1 \<le> RelR_size G" by (cases "RelR_size G") simp_all
  from lg_ceil_spec [OF this] obtain l where l: "lg_ceil (RelR_size G) = Inr l"
    "RelR_size G \<le> 2 ^ l" "0 < l \<longrightarrow> 2 ^ (l - 1) < RelR_size G"
    by blast
  from assms(2) l(2) have "(2::nat) ^ Radix_R G < 2 ^ l" by (rule less_le_trans)
  then have rl: "Radix_R G < l" by simp
  have "l \<le> 32"
  proof (rule ccontr)
    assume "\<not> l \<le> 32"
    then have "32 \<le> l - 1" "0 < l" by simp_all
    then have "(2::nat) ^ 32 \<le> 2 ^ (l - 1)" by (intro power_increasing) simp_all
    with l(3) \<open>0 < l\<close> assms(3) show False by simp
  qed
  with rl have sh: "nat ((int l - int (Radix_R G) - 1) mod 256) = l - Radix_R G - 1"
    by (simp add: nat_diff_distrib')
  from rl \<open>l \<le> 32\<close> have "l - Radix_R G - 1 + Radix_R G + 1 = l" "l - Radix_R G - 1 < 32"
    by simp_all
  with l(1) sh show ?thesis
    using assms(1) by (simp add: ICP_shift_def ebind_def Let_def)
qed






section \<open>C1: the total of matches\<close>




section \<open>C2: ICP permutes the tuples\<close>

text \<open>
  C2: for every sub-relation of size at least 1 and every radix \<open>k\<close> in \<open>[0,16]\<close> with
  \<open>2 ^ k\<close> divisible by \<open>num_groups\<close> (and a relation R that is not empty), \<open>ICP\<close> returns,
  and the tuple array it returns holds exactly the same multiset of tuples as before the
  call. This holds for both relations, for every worker, whatever the other workers report
  to the skew estimation, and on the branch that restarts \<open>ICP\<close> as well. The model has no
  storage but the array itself and \<open>TmpBlock\<close>, which has the size of the first block.
\<close>

theorem C2_ICP_permutation:
  assumes "1 \<le> length T" and "radix \<le> 16" and "1 \<le> Threads_num_groups G"
    and "2 ^ radix mod Threads_num_groups G = 0" and "1 \<le> RelR_size G"
  shows "\<exists>G' T' Blocks'. ICP G tid others sid T radix Blocks = Inr (G', T', Blocks') \<and>
           mset T' = mset T"
proof (cases "radix = 0")
  case True
  then have "ICP G tid others sid T radix Blocks = Inr (G, T, Blocks)"
    by (subst ICP.simps) simp
  then show ?thesis by simp
next
  case False
  then have r: "0 < radix" by simp
  from assms have ok: "setup_ok G sid (length T) radix" by (simp add: setup_ok_def)
  from ICP_setup_wf [OF ok] obtain G1 P
    where su: "ICP_setup G sid (length T) radix = Inr (G1, P, length T mod icp_num_blocks P)"
      and wf: "icp_wf P" and N: "icp_N P = length T" and R1: "RelR_size G1 = RelR_size G"
    by blast
  from R1 assms(5) have "RelR_size G1 \<noteq> 0" by simp
  from first_block_skew_total [OF this] obtain G2 rs
    where E: "first_block_skew G1 tid others sid P T = Inr (G2, rs)" by blast
  show ?thesis
  proof (cases rs)
    case True
    with E have E': "first_block_skew G1 tid others sid P T = Inr (G2, True)" by simp
    from ICP_restart(1) [OF r su wf N refl E'] show ?thesis by simp
  next
    case False
    with E have E': "first_block_skew G1 tid others sid P T = Inr (G2, False)" by simp
    from ICP_partition [OF ok r su E'] obtain T' Pos'
      where "ICP G tid others sid T radix Blocks =
           Inr (G2, T', \<lparr>blocks_N = icp_num_blocks P, Pos = Pos'\<rparr>)" "icp_layout P T T'"
      by blast
    with layout_mset [OF wf N [symmetric]] show ?thesis by simp
  qed
qed

theorem C2_ICP_permutation_witness:
  "\<exists>G' T' Blocks'.
     ICP \<lparr>Radix_R = 1, Radix_S = 1, Radix_user_defined = True, Threads_N = 1, RelR_size = 3,
          RelS_size = 3, Threads_num_groups = 1, HighSkewObserved = 0, ChangedRadixS = False,
          ModelIII_shift = 0\<rparr> 0 0 IdR [Tuple 3 30, Tuple 1 10, Tuple 2 20] 1
         \<lparr>blocks_N = 0, Pos = []\<rparr> = Inr (G', T', Blocks') \<and>
     mset T' = {#Tuple 3 30, Tuple 1 10, Tuple 2 20#}"
proof -
  let ?G = "\<lparr>Radix_R = 1, Radix_S = 1, Radix_user_defined = True, Threads_N = 1, RelR_size = 3,
          RelS_size = 3, Threads_num_groups = 1, HighSkewObserved = 0, ChangedRadixS = False,
          ModelIII_shift = 0\<rparr>"
  have h: "1 \<le> length [Tuple 3 30, Tuple 1 10, Tuple 2 20]" "(1::nat) \<le> 16"
    "1 \<le> Threads_num_groups ?G" "2 ^ 1 mod Threads_num_groups ?G = 0" "1 \<le> RelR_size ?G"
    by simp_all
  from C2_ICP_permutation [OF h, of 0 0 IdR "\<lparr>blocks_N = 0, Pos = []\<rparr>"]
  show ?thesis by simp
qed

section \<open>C3: the layout after ICP\<close>

text \<open>
  C3 (counterexample): two workers in two groups, \<open>R_bits = 2\<close> and \<open>S_bits = 1\<close>, and
  \<open>ICP\<close> with radix 1 on a part of S with the keys 2, 1, 4, 3, 6. For S under
  \<open>R_bits > S_bits\<close> a block has \<open>G = 1\<close> sub-block, so \<open>Pos[0][0]\<close> should describe the run
  of the partitions \<open>[0, 2)\<close>, the whole block \<open>[0, 5)\<close>. The code keeps the width
  \<open>fanout / num_groups = 1\<close> that it has computed before: \<open>Pos[0][0]\<close> is \<open>[0, 3)\<close>, the run
  of partition 0 alone.
\<close>

theorem C3_sub_block_counterexample:
  "\<exists>G' T' Pos'.
     ICP \<lparr>Radix_R = 2, Radix_S = 1, Radix_user_defined = True, Threads_N = 2, RelR_size = 6,
          RelS_size = 10, Threads_num_groups = 2, HighSkewObserved = 0, ChangedRadixS = False,
          ModelIII_shift = 0\<rparr> 0 0 IdS
         [Tuple 2 0, Tuple 1 0, Tuple 4 0, Tuple 3 0, Tuple 6 0] 1 \<lparr>blocks_N = 0, Pos = []\<rparr> =
       Inr (G', T', \<lparr>blocks_N = 1, Pos = Pos'\<rparr>) \<and>
     length T' = 5 \<and> Pos' ! 0 = [\<lparr>bstart = 0, bend = 3\<rparr>]"
proof -
  define G where "G = \<lparr>Radix_R = 2, Radix_S = 1, Radix_user_defined = True, Threads_N = 2,
          RelR_size = 6, RelS_size = 10, Threads_num_groups = 2, HighSkewObserved = 0,
          ChangedRadixS = False, ModelIII_shift = 0\<rparr>"
  define T where "T = [Tuple 2 0, Tuple 1 0, Tuple 4 0, Tuple 3 0, Tuple 6 0]"
  define P where "P = \<lparr>icp_shift = 0, icp_fanout = 2, icp_mask = 1, icp_N = 5,
      icp_num_blocks = 1, icp_avg_block_size = 5, icp_first_block_size = 5,
      icp_num_sub_blocks = 1, icp_sub_block_partitions = 1\<rparr>"
  have ok: "setup_ok G IdS (length T) 1" by (simp add: setup_ok_def G_def T_def)
  have su: "ICP_setup G IdS (length T) 1 = Inr (G, P, 0)"
    by (simp add: ICP_setup_def ICP_shift_def div_ceil_def ChunkSize_def ebind_def
        G_def T_def P_def)
  have sk: "first_block_skew G 0 0 IdS P T = Inr (G, False)"
    by (simp add: first_block_skew_def G_def)
  have blk: "block_tuples P T 0 = T"
    by (simp add: block_tuples_def block_len_def block_from_def P_def T_def)
  have hs: "icp_hash P (Tuple 2 0) = 0" "icp_hash P (Tuple 1 0) = 1"
    "icp_hash P (Tuple 4 0) = 0" "icp_hash P (Tuple 3 0) = 1" "icp_hash P (Tuple 6 0) = 0"
    by (simp_all add: icp_hash_def HASHx_def P_def)
  have cb: "count_below (icp_hash P) T (Suc 0) = 3"
    by (simp add: count_below_def hs T_def)
  have off: "block_offset P 0 = 0" by (simp add: block_offset_def P_def)
  have sb: "icp_num_sub_blocks P = 1" "icp_sub_block_partitions P = 1" by (simp_all add: P_def)
  have ex: "expected_positions P T 0 = [\<lparr>bstart = 0, bend = 3\<rparr>]"
    unfolding expected_positions_def blk by (simp add: off cb sb)
  from ICP_partition [OF ok _ su sk, of "\<lparr>blocks_N = 0, Pos = []\<rparr>"] obtain T' Pos'
    where run: "ICP G 0 0 IdS T 1 \<lparr>blocks_N = 0, Pos = []\<rparr> =
           Inr (G, T', \<lparr>blocks_N = icp_num_blocks P, Pos = Pos'\<rparr>)"
      and lay: "icp_layout P T T'"
      and pos: "\<forall>b<icp_num_blocks P. Pos' ! b = expected_positions P T b"
    by auto
  have nb: "icp_num_blocks P = 1" by (simp add: P_def)
  from pos have "Pos' ! 0 = expected_positions P T 0" by (simp add: nb)
  then have "Pos' ! 0 = [\<lparr>bstart = 0, bend = 3\<rparr>]" by (simp only: ex)
  moreover from lay have "length T' = 5" by (simp add: icp_layout_def T_def)
  ultimately show ?thesis using run unfolding G_def T_def nb by auto
qed

text \<open>
  C3 (amended): let \<open>ICP\<close> run with radix \<open>0 < k \<le> 16\<close> on a sub-relation \<open>T\<close>, with the
  parameters \<open>P\<close> of its prologue, and let the skew test on the first block not restart it.
  Then for every block \<open>b\<close> and every partition \<open>p < 2 ^ k\<close> the tuples of block \<open>b\<close> that
  hash to \<open>p\<close> occupy, in their order, the run of the reordered array \<open>T'\<close> that starts at
  \<open>block_offset P b + count_below ... p\<close>, where \<open>block_offset P b\<close> is
  \<open>(b == 0 ? N : block_start) - first_block_size\<close> and the boundary \<open>count_below ... p\<close> is
  the sum of the first \<open>p\<close> entries of the histogram of block \<open>b\<close> taken before the call.
  A block has \<open>num_groups\<close> sub-blocks, and a single one when S is partitioned under
  \<open>R_bits > S_bits\<close>; in both cases \<open>Pos[b][m]\<close> holds the start of partition
  \<open>m * (fanout / num_groups)\<close> and the start of partition \<open>(m + 1) * (fanout / num_groups)\<close>.
\<close>

theorem C3_ICP_layout:
  assumes "0 < radix" and "1 \<le> length T" and "1 \<le> Threads_num_groups G"
    and "2 ^ radix mod Threads_num_groups G = 0" and "1 \<le> RelR_size G"
    and "ICP_setup G sid (length T) radix = Inr (G1, P, rem)"
    and "first_block_skew G1 tid others sid P T = Inr (G2, False)"
    and "radix \<le> 16"
  shows "\<exists>T' Pos'.
      ICP G tid others sid T radix Blocks =
        Inr (G2, T', \<lparr>blocks_N = icp_num_blocks P, Pos = Pos'\<rparr>) \<and>
      length T' = length T \<and> length Pos' = icp_num_blocks P \<and>
      icp_num_sub_blocks P =
        (if sid = IdS \<and> Radix_R G > Radix_S G then 1 else Threads_num_groups G) \<and>
      (\<forall>b<icp_num_blocks P.
         (\<forall>p<2 ^ radix.
            take (count_eq (icp_hash P) (block_tuples P T b) p)
              (drop (block_offset P b + count_below (icp_hash P) (block_tuples P T b) p) T') =
              filter (\<lambda>t. icp_hash P t = p) (block_tuples P T b) \<and>
            count_below (icp_hash P) (block_tuples P T b) p =
              sum_list (take p (block_histogram (icp_mask P) (icp_shift P) (2 ^ radix) T
                 (block_from P b) (block_from P b + block_len P b)))) \<and>
         length (Pos' ! b) = icp_num_sub_blocks P \<and>
         (\<forall>m<icp_num_sub_blocks P. Pos' ! b ! m =
            \<lparr>bstart = block_offset P b + count_below (icp_hash P) (block_tuples P T b)
                 (m * (2 ^ radix div Threads_num_groups G)),
             bend = block_offset P b + count_below (icp_hash P) (block_tuples P T b)
                 ((m + 1) * (2 ^ radix div Threads_num_groups G))\<rparr>))"
proof -
  from assms have ok: "setup_ok G sid (length T) radix" by (simp add: setup_ok_def)
  from ICP_setup_wf [OF ok] assms(6)
  have wf: "icp_wf P" and N: "icp_N P = length T" and f: "icp_fanout P = 2 ^ radix"
    and sbp: "icp_sub_block_partitions P = 2 ^ radix div Threads_num_groups G"
    and nsb: "icp_num_sub_blocks P =
        (if sid = IdS \<and> Radix_R G > Radix_S G then 1 else Threads_num_groups G)"
    by auto
  from ICP_partition [OF ok assms(1) assms(6) assms(7), of Blocks] obtain T' Pos'
    where run: "ICP G tid others sid T radix Blocks =
           Inr (G2, T', \<lparr>blocks_N = icp_num_blocks P, Pos = Pos'\<rparr>)"
      and lay: "icp_layout P T T'" and lp: "length Pos' = icp_num_blocks P"
      and pos: "\<forall>b<icp_num_blocks P. Pos' ! b = expected_positions P T b"
    by blast
  have "(\<forall>p<2 ^ radix.
            take (count_eq (icp_hash P) (block_tuples P T b) p)
              (drop (block_offset P b + count_below (icp_hash P) (block_tuples P T b) p) T') =
              filter (\<lambda>t. icp_hash P t = p) (block_tuples P T b) \<and>
            count_below (icp_hash P) (block_tuples P T b) p =
              sum_list (take p (block_histogram (icp_mask P) (icp_shift P) (2 ^ radix) T
                 (block_from P b) (block_from P b + block_len P b)))) \<and>
         length (Pos' ! b) = icp_num_sub_blocks P \<and>
         (\<forall>m<icp_num_sub_blocks P. Pos' ! b ! m =
            \<lparr>bstart = block_offset P b + count_below (icp_hash P) (block_tuples P T b)
                 (m * (2 ^ radix div Threads_num_groups G)),
             bend = block_offset P b + count_below (icp_hash P) (block_tuples P T b)
                 ((m + 1) * (2 ^ radix div Threads_num_groups G))\<rparr>)"
    if b: "b < icp_num_blocks P" for b
  proof -
    have 1: "take (count_eq (icp_hash P) (block_tuples P T b) p)
              (drop (block_offset P b + count_below (icp_hash P) (block_tuples P T b) p) T') =
              filter (\<lambda>t. icp_hash P t = p) (block_tuples P T b)" if "p < 2 ^ radix" for p
      using layout_partition_slice [OF wf N [symmetric] lay b, of p] that by (simp add: f)
    have 2: "count_below (icp_hash P) (block_tuples P T b) p =
              sum_list (take p (block_histogram (icp_mask P) (icp_shift P) (2 ^ radix) T
                 (block_from P b) (block_from P b + block_len P b)))" if "p < 2 ^ radix" for p
      using histogram_prefix_sums [OF wf N [symmetric] b, of p] that by (simp add: f)
    from pos b have "Pos' ! b = expected_positions P T b" by simp
    then have 3: "length (Pos' ! b) = icp_num_sub_blocks P"
      and 4: "\<forall>m<icp_num_sub_blocks P. Pos' ! b ! m =
            \<lparr>bstart = block_offset P b + count_below (icp_hash P) (block_tuples P T b)
                 (m * (2 ^ radix div Threads_num_groups G)),
             bend = block_offset P b + count_below (icp_hash P) (block_tuples P T b)
                 ((m + 1) * (2 ^ radix div Threads_num_groups G))\<rparr>"
      by (simp_all add: expected_positions_def sbp)
    from 1 2 3 4 show ?thesis by blast
  qed
  with run lay lp nsb show ?thesis unfolding icp_layout_def by blast
qed


theorem C3_ICP_layout_witness:
  "\<exists>T' Pos'.
     ICP \<lparr>Radix_R = 1, Radix_S = 1, Radix_user_defined = True, Threads_N = 1, RelR_size = 3,
          RelS_size = 3, Threads_num_groups = 1, HighSkewObserved = 0, ChangedRadixS = False,
          ModelIII_shift = 0\<rparr> 0 0 IdR [Tuple 3 30, Tuple 1 10, Tuple 2 20] 1
         \<lparr>blocks_N = 0, Pos = []\<rparr> =
       Inr (\<lparr>Radix_R = 1, Radix_S = 1, Radix_user_defined = True, Threads_N = 1, RelR_size = 3,
          RelS_size = 3, Threads_num_groups = 1, HighSkewObserved = 0, ChangedRadixS = False,
          ModelIII_shift = 0\<rparr>, T', \<lparr>blocks_N = 1, Pos = Pos'\<rparr>) \<and>
     take 1 T' = [Tuple 2 20] \<and> take 2 (drop 1 T') = [Tuple 3 30, Tuple 1 10] \<and>
     Pos' ! 0 ! 0 = \<lparr>bstart = 0, bend = 3\<rparr>"
proof -
  define G where "G = \<lparr>Radix_R = 1, Radix_S = 1, Radix_user_defined = True, Threads_N = 1,
          RelR_size = 3, RelS_size = 3, Threads_num_groups = 1, HighSkewObserved = 0,
          ChangedRadixS = False, ModelIII_shift = 0\<rparr>"
  define T where "T = [Tuple 3 30, Tuple 1 10, Tuple 2 20]"
  define P where "P = \<lparr>icp_shift = 0, icp_fanout = 2, icp_mask = 1, icp_N = 3,
      icp_num_blocks = 1, icp_avg_block_size = 3, icp_first_block_size = 3,
      icp_num_sub_blocks = 1, icp_sub_block_partitions = 2\<rparr>"
  have h: "(0::nat) < 1" "1 \<le> length T" "1 \<le> Threads_num_groups G"
    "2 ^ 1 mod Threads_num_groups G = 0" "1 \<le> RelR_size G"
    by (simp_all add: G_def T_def)
  have r16: "(1::nat) \<le> 16" by simp
  have su: "ICP_setup G IdR (length T) 1 = Inr (G, P, 0)"
    by (simp add: ICP_setup_def ICP_shift_def div_ceil_def ChunkSize_def ebind_def
        G_def T_def P_def)
  have sk: "first_block_skew G 0 0 IdR P T = Inr (G, False)"
    by (simp add: first_block_skew_def)
  have blk: "block_tuples P T 0 = T"
    by (simp add: block_tuples_def block_len_def block_from_def P_def T_def)
  have hs: "icp_hash P (Tuple 3 30) = 1" "icp_hash P (Tuple 1 10) = 1"
    "icp_hash P (Tuple 2 20) = 0"
    by (simp_all add: icp_hash_def HASHx_def P_def)
  have off: "block_offset P 0 = 0" by (simp add: block_offset_def P_def)
  have nb: "icp_num_blocks P = 1" "icp_num_sub_blocks P = 1" "Threads_num_groups G = 1"
    by (simp_all add: P_def G_def)
  from C3_ICP_layout [OF h su sk r16, of "\<lparr>blocks_N = 0, Pos = []\<rparr>"] obtain T' Pos'
    where run: "ICP G 0 0 IdR T 1 \<lparr>blocks_N = 0, Pos = []\<rparr> =
        Inr (G, T', \<lparr>blocks_N = 1, Pos = Pos'\<rparr>)"
      and lay: "\<forall>p<2.
            take (count_eq (icp_hash P) T p)
              (drop (block_offset P 0 + count_below (icp_hash P) T p) T') =
              filter (\<lambda>t. icp_hash P t = p) T"
      and ps: "Pos' ! 0 ! 0 =
            \<lparr>bstart = block_offset P 0 + count_below (icp_hash P) T 0,
             bend = block_offset P 0 + count_below (icp_hash P) T 2\<rparr>"
    by (auto simp: nb blk)
  from lay [rule_format, of 0] have "take (count_eq (icp_hash P) T 0)
              (drop (block_offset P 0 + count_below (icp_hash P) T 0) T') =
              filter (\<lambda>t. icp_hash P t = 0) T" by simp
  then have 1: "take 1 T' = [Tuple 2 20]"
    by (simp add: count_eq_def count_below_def hs off T_def)
  from lay [rule_format, of 1] have "take (count_eq (icp_hash P) T 1)
              (drop (block_offset P 0 + count_below (icp_hash P) T 1) T') =
              filter (\<lambda>t. icp_hash P t = 1) T" by simp
  then have 2: "take 2 (drop 1 T') = [Tuple 3 30, Tuple 1 10]"
    by (simp add: count_eq_def count_below_def hs off T_def numeral_2_eq_2)
  from ps have 3: "Pos' ! 0 ! 0 = \<lparr>bstart = 0, bend = 3\<rparr>"
    by (simp add: count_below_def hs off T_def)
  from run 1 2 3 show ?thesis unfolding G_def T_def by blast
qed

section \<open>C4: the checksum in the test configuration\<close>




section \<open>C7: the radix switch\<close>




section \<open>Model I: the table's initial contents\<close>

text \<open>
  Claim C9. In Model I, with \<open>N\<close> workers and a table of \<open>|R| + 1\<close> buckets, the cooperative
  zeroing sets the first \<open>N * ((|R| + 1) div N)\<close> buckets to zero and leaves the others as
  they were allocated; these are \<open>(|R| + 1) mod N\<close> buckets, so at most \<open>N - 1\<close>, and none
  exactly when \<open>N\<close> divides \<open>|R| + 1\<close>. When the keys of R are a permutation of \<open>[1, |R|]\<close>
  and the keys of S lie in \<open>[1, |R|]\<close>, every bucket index read during the probe was written
  during the build, and the run returns the same matches and checksums for any two initial
  contents of the table.
\<close>

theorem C9_model_I_initial_contents:
  assumes "workers_ok G Ts"
    and "Radix_R G = 0" "Radix_S G = 0"
    and "RelR_size G = length (RelR Ts)" "RelR_size G < 2 ^ 32 - 1"
    and "primary_key (RelR Ts)"
    and "foreign_key (RelS Ts) (length (RelR Ts))"
  shows "(\<forall>j<length (RelR Ts) + 1.
      ColBP_I_zero_phase (Threads_N G) Ts
          (SafeMalloc_buckets garbage (ColBP_I_HTable_size (RelR_size G))) ! j =
        (if j < length Ts * ((length (RelR Ts) + 1) div length Ts) then 0 else garbage j)) \<and>
    length (RelR Ts) + 1 - length Ts * ((length (RelR Ts) + 1) div length Ts) =
      (length (RelR Ts) + 1) mod length Ts \<and>
    (length (RelR Ts) + 1) mod length Ts \<le> length Ts - 1 \<and>
    (\<forall>s\<in>set (RelS Ts). ColBP_I_index (key s) \<in> ColBP_I_index ` key ` set (RelR Ts)) \<and>
    (\<exists>Ts'. ColBP_I test_key G garbage Ts = Inr Ts' \<and>
      ColBP_I test_key G garbage' Ts = Inr Ts')"
proof -
  let ?n = "length (RelR Ts) + 1"
  let ?H0 = "SafeMalloc_buckets garbage (ColBP_I_HTable_size (RelR_size G))"
  from assms(1) have N: "0 < length Ts" by (simp add: workers_ok_def)
  from assms(4,5) have sz: "ColBP_I_HTable_size (RelR_size G) = ?n"
    by (simp add: ColBP_I_HTable_size_def)
  have l0: "length ?H0 = ?n" by (simp add: SafeMalloc_buckets_def sz)
  have g: "?H0 ! j = garbage j" if "j < ?n" for j
    using that by (simp del: upt_Suc add: SafeMalloc_buckets_def sz)
  have 1: "\<forall>j<?n. ColBP_I_zero_phase (Threads_N G) Ts ?H0 ! j =
        (if j < length Ts * (?n div length Ts) then 0 else garbage j)"
  proof (intro allI impI)
    fix j assume j: "j < ?n"
    then have "j < length ?H0" by (simp only: l0)
    from ColBP_I_zero_phase_result(2) [OF assms(1) this] g [OF j]
    show "ColBP_I_zero_phase (Threads_N G) Ts ?H0 ! j =
        (if j < length Ts * (?n div length Ts) then 0 else garbage j)"
      by (simp only: l0)
  qed
  have 2: "?n - length Ts * (?n div length Ts) = ?n mod length Ts"
    by (simp add: minus_mult_div_eq_mod)
  have 3: "?n mod length Ts \<le> length Ts - 1"
    using mod_less_divisor [OF N, of ?n] by simp
  have 4: "\<forall>s\<in>set (RelS Ts). ColBP_I_index (key s) \<in> ColBP_I_index ` key ` set (RelR Ts)"
  proof
    fix s assume "s \<in> set (RelS Ts)"
    from foreign_key_in_R [OF assms(6,7) this] obtain t
      where t: "t \<in> set (RelR Ts)" "key t = key s" by blast
    from t(1) have "ColBP_I_index (key t) \<in> ColBP_I_index ` key ` set (RelR Ts)"
      by (intro imageI)
    then show "ColBP_I_index (key s) \<in> ColBP_I_index ` key ` set (RelR Ts)"
      by (simp only: t(2))
  qed
  have 5: "\<exists>Ts'. ColBP_I test_key G garbage Ts = Inr Ts' \<and>
      ColBP_I test_key G garbage' Ts = Inr Ts'"
    using ColBP_I_result [OF assms, of test_key garbage]
      ColBP_I_result [OF assms, of test_key garbage'] by simp
  from 1 2 3 4 5 show ?thesis by (intro conjI)
qed

theorem C9_model_I_initial_contents_witness:
  "let G = \<lparr>Radix_R = 0, Radix_S = 0, Radix_user_defined = False, Threads_N = 2,
          RelR_size = 4, RelS_size = 3, Threads_num_groups = 1, HighSkewObserved = 0,
          ChangedRadixS = False, ModelIII_shift = 0\<rparr>;
       Ts = [\<lparr>T_tid = 0, T_group = 0, T_SubR = [Tuple 1 10, Tuple 3 30],
              T_SubS = [Tuple 4 0, Tuple 1 0], T_BlocksR = \<lparr>blocks_N = 0, Pos = []\<rparr>,
              T_BlocksS = \<lparr>blocks_N = 0, Pos = []\<rparr>, T_matches = 0, T_checksum = 0\<rparr>,
             \<lparr>T_tid = 1, T_group = 0, T_SubR = [Tuple 4 40, Tuple 2 20],
              T_SubS = [Tuple 2 0], T_BlocksR = \<lparr>blocks_N = 0, Pos = []\<rparr>,
              T_BlocksS = \<lparr>blocks_N = 0, Pos = []\<rparr>, T_matches = 0, T_checksum = 0\<rparr>]
   in ColBP_I_zero_phase 2 Ts (SafeMalloc_buckets (\<lambda>j. 7) 5) ! 4 = 7 \<and>
      (\<exists>Ts'. ColBP_I False G (\<lambda>j. 7) Ts = Inr Ts' \<and> ColBP_I False G (\<lambda>j. 0) Ts = Inr Ts')"
proof -
  define G where "G = \<lparr>Radix_R = 0, Radix_S = 0, Radix_user_defined = False, Threads_N = 2,
          RelR_size = 4, RelS_size = 3, Threads_num_groups = 1, HighSkewObserved = 0,
          ChangedRadixS = False, ModelIII_shift = 0\<rparr>"
  define Ts where "Ts = [\<lparr>T_tid = 0, T_group = 0, T_SubR = [Tuple 1 10, Tuple 3 30],
              T_SubS = [Tuple 4 0, Tuple 1 0], T_BlocksR = \<lparr>blocks_N = 0, Pos = []\<rparr>,
              T_BlocksS = \<lparr>blocks_N = 0, Pos = []\<rparr>, T_matches = 0, T_checksum = 0\<rparr>,
             \<lparr>T_tid = 1, T_group = 0, T_SubR = [Tuple 4 40, Tuple 2 20],
              T_SubS = [Tuple 2 0], T_BlocksR = \<lparr>blocks_N = 0, Pos = []\<rparr>,
              T_BlocksS = \<lparr>blocks_N = 0, Pos = []\<rparr>, T_matches = 0, T_checksum = 0\<rparr>]"
  have R: "RelR Ts = [Tuple 1 10, Tuple 3 30, Tuple 4 40, Tuple 2 20]"
    and S: "RelS Ts = [Tuple 4 0, Tuple 1 0, Tuple 2 0]"
    and l: "length Ts = 2"
    by (simp_all add: RelR_def RelS_def Ts_def)
  have pk: "primary_key [Tuple 1 10, Tuple 3 30, Tuple 4 40, Tuple 2 20]" by code_simp
  have h: "workers_ok G Ts" "Radix_R G = 0" "Radix_S G = 0" "RelR_size G = length (RelR Ts)"
    "RelR_size G < 2 ^ 32 - 1" "primary_key (RelR Ts)" "foreign_key (RelS Ts) (length (RelR Ts))"
    unfolding R S by (simp_all add: pk) (simp_all add: workers_ok_def foreign_key_def G_def Ts_def upt_rec)
  have sz: "ColBP_I_HTable_size (RelR_size G) = 5" "Threads_N G = 2"
    by (simp_all add: ColBP_I_HTable_size_def G_def)
  from C9_model_I_initial_contents [OF h, of "\<lambda>j. 7" False "\<lambda>j. 0"]
  have "ColBP_I_zero_phase 2 Ts (SafeMalloc_buckets (\<lambda>j. 7) 5) ! 4 = 7 \<and>
      (\<exists>Ts'. ColBP_I False G (\<lambda>j. 7) Ts = Inr Ts' \<and> ColBP_I False G (\<lambda>j. 0) Ts = Inr Ts')"
    unfolding R l sz by simp
  then show ?thesis unfolding G_def Ts_def Let_def .
qed

section \<open>C8: the report of high local skew\<close>

text \<open>
  C8: a worker's skew estimation on the histogram of its first S block (\<open>2 ^ S_bits\<close>
  counters, \<open>S_bits > 0\<close>, a block of at most \<open>ChunkSize\<close> tuples) adds one to
  \<open>HighSkewObserved\<close> if and only if \<open>|S| / |R| \<ge> 3\<close> and either the fanout exceeds 4 and
  \<open>maxA + maxB > 0.35 * block_size\<close>, or the fanout is at most 4 and
  \<open>maxA > block_size / 2 + 10\<close>, where \<open>maxA \<ge> maxB\<close> are the two largest entries of the
  histogram. No other worker reports here (\<open>others = 0\<close>), so the counter shows the
  worker's own increment.
\<close>

theorem C8_skew_report:
  assumes "RelR_size G \<noteq> 0" and "length Histo = 2 ^ Radix_S G" and "0 < Radix_S G"
    and "block_size \<le> ChunkSize"
  shows "\<exists>G' b. ICP_estimate_skew G tid 0 Histo block_size = Inr (G', b) \<and>
           second_entry (mset Histo) \<le> largest_entry (mset Histo) \<and>
           HighSkewObserved G' = HighSkewObserved G +
             (if 3 \<le> real (RelS_size G) / real (RelR_size G) \<and>
                 ((2 ^ Radix_S G > (4::nat) \<and>
                   real (largest_entry (mset Histo) + second_entry (mset Histo))
                     > 0.35 * real block_size) \<or>
                  (2 ^ Radix_S G \<le> (4::nat) \<and>
                   real (largest_entry (mset Histo)) > real block_size / 2 + 10))
              then 1 else 0)"
proof -
  let ?n = "(2::nat) ^ Radix_S G"
  let ?A = "largest_entry (mset Histo)" and ?B = "second_entry (mset Histo)"
  have "(2::nat) ^ 1 \<le> ?n" using assms(3) by (intro power_increasing) simp_all
  then have n2: "2 \<le> ?n" by simp
  have tl: "two_largest ?n Histo = (?A, ?B)"
    by (rule two_largest_eq [OF assms(2) n2])
  have sz: "2 \<le> size (mset Histo)" using assms(2) n2 by simp
  then have ne: "mset Histo \<noteq> {#}" by auto
  have "size (mset Histo - {#?A#}) = size (mset Histo) - 1"
    using largest_entry_in [OF ne] by (simp add: size_Diff_singleton)
  with sz have "mset Histo - {#?A#} \<noteq> {#}" by auto
  then have le: "?B \<le> ?A" by (rule second_le_largest)
  have hl: "high_local_skew ?n Histo block_size \<longleftrightarrow>
      (?n > 4 \<and> real (?A + ?B) > 0.35 * real block_size) \<or>
      (?n \<le> 4 \<and> real ?A > real block_size / 2 + 10)"
    unfolding high_local_skew_def tl Let_def prod.case no_wrap_35 [OF assms(4)]
      threshold_35 threshold_half ..
  from assms(1) have R: "0 < RelR_size G" by simp
  show ?thesis
  proof (cases "RelS_size G div RelR_size G < 3")
    case True
    with ratio_ge_3 [OF R, of "RelS_size G"] have "\<not> 3 \<le> real (RelS_size G) / real (RelR_size G)"
      by simp
    moreover have "ICP_estimate_skew G tid 0 Histo block_size = Inr (G, False)"
      using True assms(1) by (simp add: ICP_estimate_skew_def)
    ultimately show ?thesis using le by auto
  next
    case False
    with ratio_ge_3 [OF R, of "RelS_size G"] have r: "3 \<le> real (RelS_size G) / real (RelR_size G)"
      by simp
    have sw: "HighSkewObserved (skew_switch t X) = HighSkewObserved X" for t X
      by (simp add: skew_switch_def)
    define G1 where "G1 = skew_report G Histo block_size"
    define G4 where "G4 = (if tid = 0 then skew_switch tid G1 else skew_switch 0 (skew_switch tid G1))"
    have e: "ICP_estimate_skew G tid 0 Histo block_size = Inr (G4, HighSkewObserved G4 = Threads_N G4)"
      using False assms(1) by (simp add: ICP_estimate_skew_def Let_def G1_def G4_def)
    have "HighSkewObserved G4 = HighSkewObserved G1"
      by (simp add: G4_def sw)
    also have "\<dots> = HighSkewObserved G + (if high_local_skew ?n Histo block_size then 1 else 0)"
      by (simp add: G1_def skew_report_def)
    finally have "HighSkewObserved G4 = HighSkewObserved G +
        (if (?n > 4 \<and> real (?A + ?B) > 0.35 * real block_size) \<or>
            (?n \<le> 4 \<and> real ?A > real block_size / 2 + 10) then 1 else 0)"
      unfolding hl .
    with e le r show ?thesis by simp
  qed
qed


theorem C8_skew_report_witness:
  "\<exists>G' b. ICP_estimate_skew
       \<lparr>Radix_R = 2, Radix_S = 2, Radix_user_defined = False, Threads_N = 1,
        RelR_size = 10, RelS_size = 40, Threads_num_groups = 1, HighSkewObserved = 0,
        ChangedRadixS = False, ModelIII_shift = 0\<rparr> 0 0 [31, 5, 3, 1] 40 = Inr (G', b) \<and>
     HighSkewObserved G' = 1"
proof -
  let ?G = "\<lparr>Radix_R = 2, Radix_S = 2, Radix_user_defined = False, Threads_N = 1,
        RelR_size = 10, RelS_size = 40, Threads_num_groups = 1, HighSkewObserved = 0,
        ChangedRadixS = False, ModelIII_shift = 0\<rparr>"
  have h: "RelR_size ?G \<noteq> 0" "length [31, 5, 3, 1::nat] = 2 ^ Radix_S ?G" "0 < Radix_S ?G"
    "(40::nat) \<le> ChunkSize"
    by (simp_all add: ChunkSize_def)
  have m: "largest_entry (mset [31, 5, 3, 1]) = 31"
    by (simp add: largest_entry_def)
  have "mset [31, 5, 3, 1::nat] - {#31#} = {#5, 3, 1#}" by simp
  then have m2: "second_entry (mset [31, 5, 3, 1]) = 5"
    unfolding second_entry_def m by simp
  from C8_skew_report [OF h, of 0] show ?thesis
    unfolding m m2 by simp
qed

section \<open>C10: command-line options\<close>

lemma sscanf_u_digits:
  assumes "ds \<noteq> []" and "\<forall>c\<in>set ds. isdigit c" and "dec_value ds < 2 ^ 32"
  shows "sscanf_u ds = Scanned (dec_value ds)"
proof -
  from assms obtain c cs where ds: "ds = c # cs" by (cases ds) auto
  with assms(2) have c: "isdigit c" by simp
  then have nsp: "\<not> isspace c" and nsign: "c \<noteq> CHR ''-''" "c \<noteq> CHR ''+''"
    by (auto simp: isdigit_def isspace_def)
  have dw: "dropWhile isspace ds = ds" using nsp by (simp add: ds)
  have tw: "takeWhile isdigit ds = ds" using assms(2) by (simp add: takeWhile_eq_all_conv)
  from assms(3) have lt: "dec_value ds < 2 ^ 64" by simp
  from assms(3) have md: "dec_value ds mod 2 ^ 32 = dec_value ds" by simp
  have hd: "hd ds \<noteq> CHR ''-''" "hd ds \<noteq> CHR ''+''" using nsign by (simp_all add: ds)
  show ?thesis
    unfolding sscanf_u_def dw Let_def using assms(1)
    by (simp only: hd tw lt md if_False if_True not_True_eq_False simp_thms)
qed

lemma scan_ival_digits:
  assumes "ds \<noteq> []" and "\<forall>c\<in>set ds. isdigit c" and "dec_value ds < 2 ^ 32"
  shows "scan_ival ds st = (True, st\<lparr>ival := dec_value ds\<rparr>)"
  by (simp add: scan_ival_def sscanf_u_digits [OF assms])

text \<open>
  C10 (counterexample): the command line \<open>--r=7 --threads 4\<close> gives the option
  \<open>threads\<close> in the two-argument form. The argument \<open>--threads\<close> has no \<open>=\<close>, so \<open>sscanf\<close>
  reads the empty rest and returns \<open>EOF\<close>, which counts as true: \<open>Threads.N\<close> receives the
  value that \<open>ival\<close> still holds, 7, not 4. The argument \<open>4\<close> is then reported as an
  unrecognized option.
\<close>

theorem C10_two_argument_form_counterexample:
  "extract_cmd_args (\<lambda>s. ScanNoMatch) [''polyhj'', ''--r=7'', ''--threads'', ''4'']
     \<lparr>Radix_R = 0, Radix_S = 0, Radix_user_defined = False, Threads_N = 8,
      RelR_size = 12800000, RelS_size = 12800000, RelS_skew = (), favor_physical_cores = True,
      ival = 0, dval = (), unrecognized = []\<rparr>
   = Inr \<lparr>Radix_R = 0, Radix_S = 0, Radix_user_defined = False, Threads_N = 7,
      RelR_size = 7, RelS_size = 12800000, RelS_skew = (), favor_physical_cores = True,
      ival = 7, dval = (), unrecognized = [''4'']\<rparr>"
  by (simp add: extract_cmd_args_def parse_arg_def ebind_def scan_ival_def LINEMAX_def
      sscanf_u_def isspace_def isdigit_def dec_value_def digit_value_def)

text \<open>
  C10 (amended): for every valued command-line option (threads, r, s, skew, radix, radixR,
  radixS), supplying it in the single-argument form \<open>--name=value\<close> sets the corresponding
  parameter to the given value: for the unsigned options the value of a non-empty decimal
  numeral \<open>ds\<close> below \<open>2 ^ 32\<close>, for \<open>skew\<close> the value that the \<open>%lf\<close> conversion yields on
  the text after \<open>=\<close>; \<open>radix\<close>, \<open>radixR\<close> and \<open>radixS\<close> also mark the radix as
  user-defined.
\<close>

theorem C10_single_argument_form:
  assumes "ds \<noteq> []" and "\<forall>c\<in>set ds. isdigit c" and "dec_value ds < 2 ^ 32"
    and "v = dec_value ds" and "sscanf_lf ts = Scanned x"
  shows "parse_arg sscanf_lf (''--threads='' @ ds) st = Inr (st\<lparr>ival := v, Threads_N := v\<rparr>) \<and>
         parse_arg sscanf_lf (''--r='' @ ds) st = Inr (st\<lparr>ival := v, RelR_size := v\<rparr>) \<and>
         parse_arg sscanf_lf (''--s='' @ ds) st = Inr (st\<lparr>ival := v, RelS_size := v\<rparr>) \<and>
         parse_arg sscanf_lf (''--skew='' @ ts) st = Inr (st\<lparr>dval := x, RelS_skew := x\<rparr>) \<and>
         parse_arg sscanf_lf (''--radix='' @ ds) st =
           Inr (st\<lparr>ival := v, Radix_user_defined := True, Radix_S := v, Radix_R := v\<rparr>) \<and>
         parse_arg sscanf_lf (''--radixR='' @ ds) st =
           Inr (st\<lparr>ival := v, Radix_user_defined := True, Radix_R := v\<rparr>) \<and>
         parse_arg sscanf_lf (''--radixS='' @ ds) st =
           Inr (st\<lparr>ival := v, Radix_user_defined := True, Radix_S := v\<rparr>)"
proof -
  note iv = scan_ival_digits [OF assms(1,2,3), of st, folded assms(4)]
  have dv: "scan_dval sscanf_lf ts st = (True, st\<lparr>dval := x\<rparr>)"
    by (simp add: scan_dval_def assms(5))
  have 1: "parse_arg sscanf_lf (''--threads='' @ ds) st = Inr (st\<lparr>ival := v, Threads_N := v\<rparr>)"
    by (simp add: parse_arg_def ebind_def LINEMAX_def iv)
  have 2: "parse_arg sscanf_lf (''--r='' @ ds) st = Inr (st\<lparr>ival := v, RelR_size := v\<rparr>)"
    by (simp add: parse_arg_def ebind_def LINEMAX_def iv)
  have 3: "parse_arg sscanf_lf (''--s='' @ ds) st = Inr (st\<lparr>ival := v, RelS_size := v\<rparr>)"
    by (simp add: parse_arg_def ebind_def LINEMAX_def iv)
  have 4: "parse_arg sscanf_lf (''--skew='' @ ts) st = Inr (st\<lparr>dval := x, RelS_skew := x\<rparr>)"
    by (simp add: parse_arg_def ebind_def LINEMAX_def dv)
  have 5: "parse_arg sscanf_lf (''--radix='' @ ds) st =
           Inr (st\<lparr>ival := v, Radix_user_defined := True, Radix_S := v, Radix_R := v\<rparr>)"
    by (simp add: parse_arg_def ebind_def LINEMAX_def iv)
  have 6: "parse_arg sscanf_lf (''--radixR='' @ ds) st =
           Inr (st\<lparr>ival := v, Radix_user_defined := True, Radix_R := v\<rparr>)"
    by (simp add: parse_arg_def ebind_def LINEMAX_def iv)
  have 7: "parse_arg sscanf_lf (''--radixS='' @ ds) st =
           Inr (st\<lparr>ival := v, Radix_user_defined := True, Radix_S := v\<rparr>)"
    by (simp add: parse_arg_def ebind_def LINEMAX_def iv)
  from 1 2 3 4 5 6 7 show ?thesis by (intro conjI)
qed

theorem C10_single_argument_form_witness:
  "parse_arg (\<lambda>s. if s = ''1.5'' then Scanned (3, 2) else ScanNoMatch) ''--threads=4''
     \<lparr>Radix_R = 0, Radix_S = 0, Radix_user_defined = False, Threads_N = 8,
      RelR_size = 100, RelS_size = 100, RelS_skew = (0::nat, 1::nat), favor_physical_cores = True,
      ival = 0, dval = (0, 1), unrecognized = []\<rparr>
   = Inr \<lparr>Radix_R = 0, Radix_S = 0, Radix_user_defined = False, Threads_N = 4,
      RelR_size = 100, RelS_size = 100, RelS_skew = (0, 1), favor_physical_cores = True,
      ival = 4, dval = (0, 1), unrecognized = []\<rparr>"
proof -
  let ?lf = "\<lambda>s. if s = ''1.5'' then Scanned (3::nat, 2::nat) else ScanNoMatch"
  have a: "''4'' \<noteq> []" "\<forall>c\<in>set ''4''. isdigit c" "dec_value ''4'' < 2 ^ 32"
    "4 = dec_value ''4''"
    by (simp_all add: isdigit_def dec_value_def digit_value_def)
  have b: "?lf ''1.5'' = Scanned (3, 2)"
    by simp
  from C10_single_argument_form [where sscanf_lf = ?lf and ts = "''1.5''", OF a b]
  show ?thesis by simp
qed

end
